theory Spec2Isabelle
  imports Complex_Main "HOL-Library.Multiset" "HOL-Library.List_Lexorder"
begin

section \<open>Shared vocabulary\<close>

text \<open>
  The program is a single Python file, \<^verbatim>\<open>screenshot-manager.py\<close>. Two of its classes
  carry the behaviour studied here: \<^verbatim>\<open>ScreenshotEditor\<close> (the drawing items of one opened
  image, with undo and redo) and \<^verbatim>\<open>ScreenshotList\<close> (the list of known screenshots, fed
  by a watched folder and a watched list file).

  Python exceptions are values. A method that can raise returns an \<open>outcome\<close>: either it
  returned, or it raised and left the object in the state reached at the \<^verbatim>\<open>raise\<close>
  (Python does not roll anything back).
\<close>

datatype error =
  IndexError | AttributeError | OSError | ValueError | OverflowError | RuntimeError

datatype 's outcome = Returned 's | Raised error 's

fun state_of :: "'s outcome \<Rightarrow> 's" where
  "state_of (Returned s) = s"
| "state_of (Raised e s) = s"

section \<open>ScreenshotEditor\<close>

datatype DrawingStyle = NONE | ELLIPSE | PEN | RECT

text \<open>
  Scene coordinates are Qt's \<^verbatim>\<open>QPointF\<close>; they are modelled as exact reals. A graphics
  item is a Qt object that several places refer to (the list \<^verbatim>\<open>self.items\<close>, the scene,
  a group), so items live in a store: a reference is an index into \<open>objects\<close>, and creating
  an item appends to the store. Shapes carry the pen width they were created with
  (\<^verbatim>\<open>draw_pen\<close> is always red and solid).
\<close>

type_synonym QPointF = "real \<times> real"

type_synonym ref = nat

datatype QGraphicsItem =
    QGraphicsPixmapItem
  | QGraphicsItemGroup "ref list"
  | QGraphicsLineItem real real real real int
  | QGraphicsEllipseItem real real real real int
  | QGraphicsRectItem real real real real int

record ScreenshotEditor =
  image_path :: string
  changed :: bool
  items :: "ref list"
  redo_items :: "ref list"
  mouse_pressed :: bool
  previous_point :: "QPointF option"
  drawing_style :: DrawingStyle
  draw_pen :: int
  photo :: ref
  scene :: "ref list"
  objects :: "QGraphicsItem list"

text \<open>
  \<open>scene\<close> is the list of the scene's top-level items in insertion order, which is the
  order in which Qt paints items of equal Z value. \<^verbatim>\<open>__init__\<close>: the scene holds the
  photo only, the style is \<^verbatim>\<open>PEN\<close>, the pen is 3 wide.
\<close>

definition ScreenshotEditor_init :: "string \<Rightarrow> ScreenshotEditor" where
  "ScreenshotEditor_init path =
     \<lparr> image_path = path, changed = False, items = [], redo_items = [],
       mouse_pressed = False, previous_point = None, drawing_style = PEN,
       draw_pen = 3, photo = 0, scene = [0], objects = [QGraphicsPixmapItem] \<rparr>"

subsection \<open>The scene's own operations\<close>

text \<open>
  \<^verbatim>\<open>QGraphicsScene.addItem\<close> ignores an item that is already in the scene and
  \<^verbatim>\<open>removeItem\<close> one that is not. \<^verbatim>\<open>addEllipse\<close>, \<^verbatim>\<open>addRect\<close>, \<^verbatim>\<open>addLine\<close> and
  \<^verbatim>\<open>createItemGroup\<close> allocate a new item, add it to the scene and return it.
\<close>

definition scene_addItem :: "ScreenshotEditor \<Rightarrow> ref \<Rightarrow> ScreenshotEditor" where
  "scene_addItem s item =
     (if item \<in> set (scene s) then s else s\<lparr>scene := scene s @ [item]\<rparr>)"

definition scene_removeItem :: "ScreenshotEditor \<Rightarrow> ref \<Rightarrow> ScreenshotEditor" where
  "scene_removeItem s item = s\<lparr>scene := removeAll item (scene s)\<rparr>"

definition scene_new :: "ScreenshotEditor \<Rightarrow> QGraphicsItem \<Rightarrow> ScreenshotEditor \<times> ref" where
  "scene_new s obj =
     (s\<lparr>objects := objects s @ [obj], scene := scene s @ [length (objects s)]\<rparr>,
      length (objects s))"

text \<open>
  \<^verbatim>\<open>group.addToGroup(line)\<close> makes the line a child of the group: it leaves the top
  level of the scene and is painted with the group. Only a \<^verbatim>\<open>QGraphicsItemGroup\<close> has
  this method.
\<close>

definition addToGroup :: "ScreenshotEditor \<Rightarrow> ref \<Rightarrow> ref \<Rightarrow> ScreenshotEditor outcome" where
  "addToGroup s grp line =
     (case objects s ! grp of
        QGraphicsItemGroup children \<Rightarrow>
          Returned (s\<lparr>objects := (objects s)[grp := QGraphicsItemGroup (children @ [line])],
                     scene := removeAll line (scene s)\<rparr>)
      | _ \<Rightarrow> Raised AttributeError s)"

text \<open>
  \<^verbatim>\<open>item.setRect(x, y, w, h)\<close> exists on ellipse and rectangle items only. Qt stores
  the four numbers as they are given.
\<close>

definition setRect :: "ScreenshotEditor \<Rightarrow> ref \<Rightarrow> real \<Rightarrow> real \<Rightarrow> real \<Rightarrow> real
    \<Rightarrow> ScreenshotEditor outcome" where
  "setRect s item x y w h =
     (case objects s ! item of
        QGraphicsEllipseItem _ _ _ _ pw \<Rightarrow>
          Returned (s\<lparr>objects := (objects s)[item := QGraphicsEllipseItem x y w h pw]\<rparr>)
      | QGraphicsRectItem _ _ _ _ pw \<Rightarrow>
          Returned (s\<lparr>objects := (objects s)[item := QGraphicsRectItem x y w h pw]\<rparr>)
      | _ \<Rightarrow> Raised AttributeError s)"

text \<open>
  The bounding box of the shape an ellipse or rectangle item holds, as
  \<open>(x, y, width, height)\<close>.
\<close>

fun rect_of :: "QGraphicsItem \<Rightarrow> (real \<times> real \<times> real \<times> real) option" where
  "rect_of (QGraphicsEllipseItem x y w h _) = Some (x, y, w, h)"
| "rect_of (QGraphicsRectItem x y w h _) = Some (x, y, w, h)"
| "rect_of _ = None"

subsection \<open>The editor's methods\<close>

definition add_item :: "ScreenshotEditor \<Rightarrow> ref \<Rightarrow> ScreenshotEditor" where
  "add_item s item = s\<lparr>items := items s @ [item], redo_items := []\<rparr>"

definition undo :: "ScreenshotEditor \<Rightarrow> ScreenshotEditor" where
  "undo s =
     (if items s \<noteq> [] then
        let item = last (items s);
            s1 = s\<lparr>items := butlast (items s)\<rparr>;
            s2 = s1\<lparr>redo_items := redo_items s1 @ [item]\<rparr>
        in scene_removeItem s2 item
      else s)"

definition redo :: "ScreenshotEditor \<Rightarrow> ScreenshotEditor" where
  "redo s =
     (if redo_items s \<noteq> [] then
        let item = last (redo_items s);
            s1 = s\<lparr>redo_items := butlast (redo_items s)\<rparr>;
            s2 = s1\<lparr>items := items s1 @ [item]\<rparr>
        in scene_addItem s2 item
      else s)"

definition save :: "ScreenshotEditor \<Rightarrow> ScreenshotEditor" where
  "save s = s\<lparr>changed := False\<rparr>"

definition set_drawing_style :: "ScreenshotEditor \<Rightarrow> DrawingStyle \<Rightarrow> ScreenshotEditor" where
  "set_drawing_style s style = s\<lparr>drawing_style := style\<rparr>"

definition set_draw_pen_width :: "ScreenshotEditor \<Rightarrow> int \<Rightarrow> ScreenshotEditor" where
  "set_draw_pen_width s width = s\<lparr>draw_pen := width\<rparr>"

text \<open>
  Mouse events carry two facts from Qt: whether the photo is under the mouse
  (\<^verbatim>\<open>self.photo.isUnderMouse()\<close>) and the scene position (\<^verbatim>\<open>mapToScene(event.pos())\<close>).
\<close>

definition mousePressEvent :: "ScreenshotEditor \<Rightarrow> bool \<Rightarrow> QPointF \<Rightarrow> ScreenshotEditor" where
  "mousePressEvent s under_mouse pos =
     (if under_mouse then
        let s1 = s\<lparr>mouse_pressed := True, previous_point := Some pos\<rparr> in
        (case drawing_style s1 of
           PEN \<Rightarrow>
             (let (s2, item) = scene_new s1 (QGraphicsItemGroup []) in add_item s2 item)
         | ELLIPSE \<Rightarrow>
             (let (s2, item) =
                    scene_new s1 (QGraphicsEllipseItem (fst pos) (snd pos) 0 0 (draw_pen s1))
              in add_item s2 item)
         | RECT \<Rightarrow>
             (let (s2, item) =
                    scene_new s1 (QGraphicsRectItem (fst pos) (snd pos) 0 0 (draw_pen s1))
              in add_item s2 item)
         | NONE \<Rightarrow> s1)
      else s)"

definition mouseReleaseEvent :: "ScreenshotEditor \<Rightarrow> ScreenshotEditor" where
  "mouseReleaseEvent s = s\<lparr>mouse_pressed := False\<rparr>"

text \<open>
  \<^verbatim>\<open>mouseMoveEvent\<close>. \<^verbatim>\<open>self.items[-1]\<close> raises \<^verbatim>\<open>IndexError\<close> on an empty list;
  \<^verbatim>\<open>self.previous_point.x()\<close> raises \<^verbatim>\<open>AttributeError\<close> while it is still \<^verbatim>\<open>None\<close>.
  Python looks a method up before it evaluates the arguments of the call: in the pen
  branch \<^verbatim>\<open>item_group.addToGroup\<close> fails on an item that is no group before any line
  is created, and in the other branch \<^verbatim>\<open>item.setRect\<close> fails on an item that has no
  such method before the point is read. Every raise of this method leaves the editor as
  it was.
\<close>

definition mouseMoveEvent :: "ScreenshotEditor \<Rightarrow> bool \<Rightarrow> QPointF \<Rightarrow> ScreenshotEditor outcome" where
  "mouseMoveEvent s under_mouse current_point =
     (if mouse_pressed s \<and> under_mouse then
        (if drawing_style s = PEN then
           (if items s = [] then Raised IndexError s
            else
              let item_group = last (items s) in
              (case objects s ! item_group of
                 QGraphicsItemGroup _ \<Rightarrow>
                   (case previous_point s of
                      None \<Rightarrow> Raised AttributeError s
                    | Some prev \<Rightarrow>
                        (let (s1, line) =
                               scene_new s (QGraphicsLineItem (fst prev) (snd prev)
                                 (fst current_point) (snd current_point) (draw_pen s))
                         in (case addToGroup s1 item_group line of
                               Raised e s2 \<Rightarrow> Raised e s2
                             | Returned s2 \<Rightarrow>
                                 Returned (s2\<lparr>previous_point := Some current_point,
                                              changed := True\<rparr>))))
               | _ \<Rightarrow> Raised AttributeError s))
         else if drawing_style s \<in> {ELLIPSE, RECT} then
           (if items s = [] then Raised IndexError s
            else
              let item = last (items s) in
              (case rect_of (objects s ! item) of
                 None \<Rightarrow> Raised AttributeError s
               | Some _ \<Rightarrow>
                   (case previous_point s of
                      None \<Rightarrow> Raised AttributeError s
                    | Some prev \<Rightarrow>
                        (case setRect s item (fst prev) (snd prev)
                                (fst current_point - fst prev) (snd current_point - snd prev) of
                           Raised e s1 \<Rightarrow> Raised e s1
                         | Returned s1 \<Rightarrow> Returned (s1\<lparr>changed := True\<rparr>)))))
         else Returned s)
      else Returned s)"

text \<open>
  \<^verbatim>\<open>render_to_image\<close> paints the scene. The pixels are Qt's business; what the editor
  decides is which shapes are painted and in which order: each top-level item in scene
  order, a group standing for its children.
\<close>

definition paint :: "QGraphicsItem list \<Rightarrow> ref \<Rightarrow> QGraphicsItem list" where
  "paint objs r =
     (case objs ! r of
        QGraphicsItemGroup children \<Rightarrow> map (\<lambda>c. objs ! c) children
      | obj \<Rightarrow> [obj])"

definition render_to_image :: "ScreenshotEditor \<Rightarrow> QGraphicsItem list" where
  "render_to_image s = concat (map (paint (objects s)) (scene s))"

subsection \<open>Sequences of user actions\<close>

text \<open>
  What the main window can do to an editor, one action at a time. A sequence stops at
  the first action that raises.
\<close>

datatype action =
    Press bool QPointF
  | Move bool QPointF
  | Release
  | Undo
  | Redo
  | Save
  | SetStyle DrawingStyle
  | SetPenWidth int

fun perform :: "ScreenshotEditor \<Rightarrow> action \<Rightarrow> ScreenshotEditor outcome" where
  "perform s (Press u p) = Returned (mousePressEvent s u p)"
| "perform s (Move u p) = mouseMoveEvent s u p"
| "perform s Release = Returned (mouseReleaseEvent s)"
| "perform s Undo = Returned (undo s)"
| "perform s Redo = Returned (redo s)"
| "perform s Save = Returned (save s)"
| "perform s (SetStyle st) = Returned (set_drawing_style s st)"
| "perform s (SetPenWidth w) = Returned (set_draw_pen_width s w)"

fun perform_all :: "ScreenshotEditor \<Rightarrow> action list \<Rightarrow> ScreenshotEditor outcome" where
  "perform_all s [] = Returned s"
| "perform_all s (a # as) =
     (case perform s a of
        Returned s' \<Rightarrow> perform_all s' as
      | Raised e s' \<Rightarrow> Raised e s')"

text \<open>
  A drag: the pointer moves that follow one press, all of them over the photo.
\<close>

fun drag :: "ScreenshotEditor \<Rightarrow> QPointF list \<Rightarrow> ScreenshotEditor outcome" where
  "drag s [] = Returned s"
| "drag s (p # ps) =
     (case mouseMoveEvent s True p of
        Returned s' \<Rightarrow> drag s' ps
      | Raised e s' \<Rightarrow> Raised e s')"

text \<open>
  The state invariant of the editor: the scene shows the photo and then exactly the
  items of \<open>items\<close>, in order; no item is both done and undone or listed twice; every
  reference points into the store.
\<close>

definition editor_inv :: "ScreenshotEditor \<Rightarrow> bool" where
  "editor_inv s \<longleftrightarrow>
     scene s = photo s # items s \<and>
     distinct (photo s # items s @ redo_items s) \<and>
     list_all (\<lambda>r. r < length (objects s)) (photo s # items s @ redo_items s)"

text \<open>
  A gesture: the style is chosen, the mouse button goes down on the photo at the anchor,
  the pointer moves over the photo through the given points, the button goes up. With any
  style but \<^verbatim>\<open>NONE\<close> the press starts one new drawing operation and each move extends it.
\<close>

type_synonym gesture = "DrawingStyle \<times> QPointF \<times> QPointF list"

fun gesture_actions :: "gesture \<Rightarrow> action list" where
  "gesture_actions (style, anchor, points) =
     SetStyle style # Press True anchor # map (Move True) points @ [Release]"

definition gestures_actions :: "gesture list \<Rightarrow> action list" where
  "gestures_actions gs = concat (map gesture_actions gs)"

text \<open>
  Two descriptions of an editor in the middle of a gesture. \<open>shaping s anchor r\<close>: an
  ellipse or rectangle \<open>r\<close> is being pulled from \<open>anchor\<close>. \<open>penning s r\<close>: the pen is
  drawing into the group \<open>r\<close>.
\<close>

definition shaping :: "ScreenshotEditor \<Rightarrow> QPointF \<Rightarrow> ref \<Rightarrow> bool" where
  "shaping s anchor r \<longleftrightarrow>
     mouse_pressed s \<and> previous_point s = Some anchor \<and>
     drawing_style s \<in> {ELLIPSE, RECT} \<and> items s \<noteq> [] \<and> last (items s) = r \<and>
     r < length (objects s) \<and> rect_of (objects s ! r) \<noteq> None"

definition penning :: "ScreenshotEditor \<Rightarrow> ref \<Rightarrow> bool" where
  "penning s r \<longleftrightarrow>
     mouse_pressed s \<and> previous_point s \<noteq> None \<and> drawing_style s = PEN \<and>
     items s \<noteq> [] \<and> last (items s) = r \<and> r < length (objects s) \<and>
     (\<exists>children. objects s ! r = QGraphicsItemGroup children)"

text \<open>
  The box the specification describes for a shape pulled from \<open>anchor\<close> to \<open>p\<close>: the
  rectangle between the two points with width and height made non-negative. It is not
  taken from the program; the program's boxes are compared with it.
\<close>

definition normalized_box :: "QPointF \<Rightarrow> QPointF \<Rightarrow> real \<times> real \<times> real \<times> real" where
  "normalized_box anchor p =
     (min (fst anchor) (fst p), min (snd anchor) (snd p),
      \<bar>fst p - fst anchor\<bar>, \<bar>snd p - snd anchor\<bar>)"

subsection \<open>Concrete editors\<close>

text \<open>
  An ellipse started at \<open>(10, 10)\<close> and pulled up and to the left to \<open>(5, 5)\<close>.
\<close>

definition ellipse_up_left :: "ScreenshotEditor outcome" where
  "ellipse_up_left =
     drag (mousePressEvent (set_drawing_style (ScreenshotEditor_init ''a.png'') ELLIPSE)
             True (10, 10)) [(5, 5)]"

text \<open>An ellipse and a pen stroke, one after the other.\<close>

definition two_gestures :: "gesture list" where
  "two_gestures = [(ELLIPSE, (10, 10), [(5, 5)]), (PEN, (1, 1), [(2, 2)])]"

text \<open>A pen stroke that was started and undone.\<close>

definition undone_once :: ScreenshotEditor where
  "undone_once = undo (mousePressEvent (ScreenshotEditor_init ''a.png'') True (1, 1))"

text \<open>A fresh editor on which the mouse button went down once, with the pen.\<close>

definition pressed_once :: ScreenshotEditor where
  "pressed_once = mousePressEvent (ScreenshotEditor_init ''a.png'') True (1, 1)"

section \<open>ScreenshotList\<close>

text \<open>
  A Python \<^verbatim>\<open>str\<close> is a sequence of Unicode code points, and a path is a \<^verbatim>\<open>str\<close>.
  \<open>ascii\<close> writes a \<^verbatim>\<open>str\<close> of ASCII characters. An entry of the list widget is a
  \<^verbatim>\<open>ScreenshotListItem\<close>: the path, the modification time read when the entry was built,
  and the size of the decoded image. The entry's text, icon and tooltip are computed
  from these three.
\<close>

type_synonym str = "nat list"

type_synonym path = str

definition ascii :: "string \<Rightarrow> str" where
  "ascii s = map of_char s"

record ScreenshotListItem =
  file_path :: path
  timestamp :: real
  image_size :: "int \<times> int"

record Config =
  screenshot_source_folder_use :: bool
  screenshot_source_folder_path :: path
  screenshot_source_filelist_use :: bool
  screenshot_source_filelist_path :: path

text \<open>
  Everything the list reads from outside the program, as it stands during one call:
  \<^item> \<open>getmtime\<close>: \<^verbatim>\<open>os.path.getmtime\<close>, or the error it raises (\<^verbatim>\<open>OSError\<close> for a
    file that is not there);
  \<^item> \<open>strftime\<close>: the text \<^verbatim>\<open>datetime.fromtimestamp(t).strftime("%c")\<close>, or the error
    \<^verbatim>\<open>fromtimestamp\<close> raises for a time outside the range of \<^verbatim>\<open>datetime\<close>
    (\<^verbatim>\<open>ValueError\<close>, \<^verbatim>\<open>OverflowError\<close> or \<^verbatim>\<open>OSError\<close>);
  \<^item> \<open>isfile\<close>, \<open>isdir\<close>: \<^verbatim>\<open>os.path.isfile\<close>, \<^verbatim>\<open>os.path.isdir\<close>;
  \<^item> \<open>walk\<close>: the full paths \<^verbatim>\<open>os.path.join(root, file)\<close> that \<^verbatim>\<open>os.walk\<close> yields
    below a folder, in its order;
  \<^item> \<open>readlines\<close>: the lines of a text file as text mode decodes them, or the error
    \<^verbatim>\<open>open\<close> or \<^verbatim>\<open>readlines\<close> raises;
  \<^item> \<open>QImage_size\<close>: the size of the image \<^verbatim>\<open>QtGui.QImage(path)\<close> decodes, \<open>None\<close>
    where Qt cannot decode the file (Qt then gives a null image, it does not raise);
  \<^item> \<open>time_now\<close>: \<^verbatim>\<open>time.time()\<close>;
  \<^item> \<open>set_order\<close>: the order in which Python iterates over a set of strings, which
    the language leaves open.
\<close>

record world =
  getmtime :: "path \<Rightarrow> error + real"
  strftime :: "real \<Rightarrow> error + str"
  isfile :: "path \<Rightarrow> bool"
  isdir :: "path \<Rightarrow> bool"
  walk :: "path \<Rightarrow> path list"
  readlines :: "path \<Rightarrow> error + str list"
  QImage_size :: "path \<Rightarrow> (int \<times> int) option"
  time_now :: real
  set_order :: "path set \<Rightarrow> path list"

text \<open>
  The list widget: its entries, the set of paths read from the list file by the last
  \<^verbatim>\<open>update_from_filelist\<close>, and its \<^verbatim>\<open>watchdog\<close> observer, of which the watched paths
  (each with its recursive flag) and whether its thread was started are kept.
\<close>

record ScreenshotList =
  entries :: "ScreenshotListItem list"
  old_filelist :: "path set"
  observer_watches :: "(path \<times> bool) list"
  observer_started :: bool

subsection \<open>Entries\<close>

text \<open>
  \<^verbatim>\<open>ScreenshotListItem.__init__\<close> calls \<^verbatim>\<open>load\<close>: the image is decoded first (a null
  image has size 0 x 0), then \<^verbatim>\<open>os.path.getmtime\<close> is read and may raise, then the
  entry's text is put together, for which the time is turned into a date and that may
  raise too.
\<close>

definition ScreenshotListItem_init :: "world \<Rightarrow> path \<Rightarrow> error + ScreenshotListItem" where
  "ScreenshotListItem_init w p =
     (let sz = (case QImage_size w p of None \<Rightarrow> (0, 0) | Some wh \<Rightarrow> wh) in
      case getmtime w p of
        Inl e \<Rightarrow> Inl e
      | Inr t \<Rightarrow>
          (case strftime w t of
             Inl e \<Rightarrow> Inl e
           | Inr date \<Rightarrow> Inr \<lparr> file_path = p, timestamp = t, image_size = sz \<rparr>))"

text \<open>\<^verbatim>\<open>__lt__\<close>: an entry is smaller than another when its timestamp is greater.\<close>

definition lt :: "ScreenshotListItem \<Rightarrow> ScreenshotListItem \<Rightarrow> bool" where
  "lt self other \<longleftrightarrow> timestamp self > timestamp other"

text \<open>
  \<^verbatim>\<open>QListWidget.sortItems()\<close> is Qt's: it puts the entries in ascending order of the
  entries' own \<^verbatim>\<open><\<close>, which is all it knows of them. It is modelled as an insertion
  sort that moves an entry only in front of entries it is smaller than, so entries that
  \<^verbatim>\<open><\<close> does not tell apart keep the order they had.
\<close>

fun insort_lt :: "ScreenshotListItem \<Rightarrow> ScreenshotListItem list \<Rightarrow> ScreenshotListItem list" where
  "insort_lt x [] = [x]"
| "insort_lt x (y # ys) = (if lt x y then x # y # ys else y # insort_lt x ys)"

definition sortItems :: "ScreenshotListItem list \<Rightarrow> ScreenshotListItem list" where
  "sortItems es = foldl (\<lambda>acc x. insort_lt x acc) [] es"

subsection \<open>remove_file and add_file\<close>

text \<open>
  \<^verbatim>\<open>remove_file\<close> walks the rows from the top, takes out the first entry with the path,
  sorts and stops; with no such row it does nothing.
\<close>

fun find_row :: "path \<Rightarrow> ScreenshotListItem list \<Rightarrow> nat option" where
  "find_row p [] = None"
| "find_row p (item # rest) =
     (if file_path item = p then Some 0 else map_option Suc (find_row p rest))"

definition takeItem :: "ScreenshotListItem list \<Rightarrow> nat \<Rightarrow> ScreenshotListItem list" where
  "takeItem es row = take row es @ drop (Suc row) es"

definition remove_file :: "ScreenshotList \<Rightarrow> path \<Rightarrow> ScreenshotList" where
  "remove_file s p =
     (case find_row p (entries s) of
        None \<Rightarrow> s
      | Some row \<Rightarrow> s\<lparr>entries := sortItems (takeItem (entries s) row)\<rparr>)"

definition add_file :: "world \<Rightarrow> ScreenshotList \<Rightarrow> path \<Rightarrow> ScreenshotList outcome" where
  "add_file w s p =
     (let s1 = remove_file s p in
      case ScreenshotListItem_init w p of
        Inl e \<Rightarrow> Raised e s1
      | Inr item \<Rightarrow> Returned (s1\<lparr>entries := sortItems (entries s1 @ [item])\<rparr>))"

subsection \<open>update_from_filelist\<close>

text \<open>
  \<^verbatim>\<open>str.strip()\<close> removes the white space at both ends: the code points for which
  \<^verbatim>\<open>str.isspace\<close> holds.
\<close>

definition isspace :: "nat \<Rightarrow> bool" where
  "isspace c \<longleftrightarrow>
     c \<in> set [0x09, 0x0A, 0x0B, 0x0C, 0x0D, 0x1C, 0x1D, 0x1E, 0x1F, 0x20, 0x85, 0xA0,
              0x1680, 0x2000, 0x2001, 0x2002, 0x2003, 0x2004, 0x2005, 0x2006, 0x2007,
              0x2008, 0x2009, 0x200A, 0x2028, 0x2029, 0x202F, 0x205F, 0x3000]"

definition strip :: "str \<Rightarrow> str" where
  "strip line = rev (dropWhile isspace (rev (dropWhile isspace line)))"

text \<open>
  The new set of listed paths: the stripped lines that are not empty and name a regular
  file; the empty set when the list file is not a regular file.
\<close>

definition read_filelist :: "Config \<Rightarrow> world \<Rightarrow> error + path set" where
  "read_filelist cfg w =
     (if isfile w (screenshot_source_filelist_path cfg) then
        (case readlines w (screenshot_source_filelist_path cfg) of
           Inl e \<Rightarrow> Inl e
         | Inr lines \<Rightarrow>
             Inr (set (filter (\<lambda>fp. length fp \<noteq> 0 \<and> isfile w fp) (map strip lines))))
      else Inr {})"

fun add_files :: "world \<Rightarrow> ScreenshotList \<Rightarrow> path list \<Rightarrow> ScreenshotList outcome" where
  "add_files w s [] = Returned s"
| "add_files w s (p # ps) =
     (case add_file w s p of
        Returned s' \<Rightarrow> add_files w s' ps
      | Raised e s' \<Rightarrow> Raised e s')"

fun remove_files :: "ScreenshotList \<Rightarrow> path list \<Rightarrow> ScreenshotList" where
  "remove_files s [] = s"
| "remove_files s (p # ps) = remove_files (remove_file s p) ps"

definition update_from_filelist :: "Config \<Rightarrow> world \<Rightarrow> ScreenshotList \<Rightarrow> ScreenshotList outcome" where
  "update_from_filelist cfg w s =
     (case read_filelist cfg w of
        Inl e \<Rightarrow> Raised e s
      | Inr new_filelist \<Rightarrow>
          (let added_files = new_filelist - old_filelist s;
               removed_files = old_filelist s - new_filelist;
               s1 = s\<lparr>old_filelist := new_filelist\<rparr>
           in case add_files w s1 (set_order w added_files) of
                Raised e s2 \<Rightarrow> Raised e s2
              | Returned s2 \<Rightarrow> Returned (remove_files s2 (set_order w removed_files))))"

subsection \<open>load_screenshots\<close>

text \<open>
  The inner loop of the folder scan: a file older than 86400 seconds is skipped, any
  other is added. \<^verbatim>\<open>os.path.getmtime\<close> may raise here too.
\<close>

fun scan_files :: "world \<Rightarrow> real \<Rightarrow> ScreenshotList \<Rightarrow> path list \<Rightarrow> ScreenshotList outcome" where
  "scan_files w now s [] = Returned s"
| "scan_files w now s (full_path # rest) =
     (case getmtime w full_path of
        Inl e \<Rightarrow> Raised e s
      | Inr m \<Rightarrow>
          (if m < now - 86400 then scan_files w now s rest
           else (case add_file w s full_path of
                   Returned s' \<Rightarrow> scan_files w now s' rest
                 | Raised e s' \<Rightarrow> Raised e s')))"

definition load_screenshots :: "Config \<Rightarrow> world \<Rightarrow> ScreenshotList \<Rightarrow> ScreenshotList outcome" where
  "load_screenshots cfg w s =
     (let s0 = s\<lparr>entries := []\<rparr> in
      case (if screenshot_source_folder_use cfg \<and> isdir w (screenshot_source_folder_path cfg)
            then scan_files w (time_now w) s0 (walk w (screenshot_source_folder_path cfg))
            else Returned s0) of
        Raised e s1 \<Rightarrow> Raised e s1
      | Returned s1 \<Rightarrow>
          (if screenshot_source_filelist_use cfg \<and> isfile w (screenshot_source_filelist_path cfg)
           then update_from_filelist cfg w s1
           else Returned s1))"

subsection \<open>The file watcher, start-up and reload\<close>

text \<open>
  \<^verbatim>\<open>reload_file_watcher\<close> drops all watches and, when the folder source is on and the
  folder exists, watches the folder recursively. When the list source is on it then
  builds the handler for the list file from \<^verbatim>\<open>self.update_filelist\<close>, a name the class
  does not have: \<^verbatim>\<open>AttributeError\<close>. Otherwise it starts the observer, which is a
  thread, and a thread that was started before raises \<^verbatim>\<open>RuntimeError\<close>.
\<close>

definition reload_file_watcher :: "Config \<Rightarrow> world \<Rightarrow> ScreenshotList \<Rightarrow> ScreenshotList outcome" where
  "reload_file_watcher cfg w s =
     (let s1 = s\<lparr>observer_watches := []\<rparr>;
          s2 = (if screenshot_source_folder_use cfg \<and> isdir w (screenshot_source_folder_path cfg)
                then s1\<lparr>observer_watches :=
                          observer_watches s1 @ [(screenshot_source_folder_path cfg, True)]\<rparr>
                else s1)
      in if screenshot_source_filelist_use cfg then Raised AttributeError s2
         else if observer_started s2 then Raised RuntimeError s2
         else Returned (s2\<lparr>observer_started := True\<rparr>))"

text \<open>
  \<^verbatim>\<open>ScreenshotList.__init__\<close>: no path is known yet; the first load runs, then a new
  observer is made and \<^verbatim>\<open>reload_file_watcher\<close> runs. If it raises, no list widget and no
  main window come to be and the program ends.
\<close>

definition ScreenshotList_init :: "Config \<Rightarrow> world \<Rightarrow> ScreenshotList outcome" where
  "ScreenshotList_init cfg w =
     (case load_screenshots cfg w
             \<lparr> entries = [], old_filelist = {}, observer_watches = [],
               observer_started = False \<rparr> of
        Raised e s \<Rightarrow> Raised e s
      | Returned s \<Rightarrow> reload_file_watcher cfg w (s\<lparr>observer_watches := [],
                                                    observer_started := False\<rparr>))"

text \<open>
  \<^verbatim>\<open>MainWindow.reload\<close>, the slot that runs when the settings dialog is accepted, with
  the configuration the dialog has just stored: \<^verbatim>\<open>load_screenshots\<close>, then
  \<^verbatim>\<open>reload_file_watcher\<close>. An exception that leaves a slot is printed and the
  application goes on with the list as the slot left it.
\<close>

definition reload :: "Config \<Rightarrow> world \<Rightarrow> ScreenshotList \<Rightarrow> ScreenshotList outcome" where
  "reload cfg w s =
     (case load_screenshots cfg w s of
        Raised e s1 \<Rightarrow> Raised e s1
      | Returned s1 \<Rightarrow> reload_file_watcher cfg w s1)"

subsection \<open>Sequences of calls\<close>

text \<open>
  The calls that change the list, each with the outside world as it is when the call
  runs. The widget lives on after a call has raised, so the next call starts from the
  state the failed one left.
\<close>

datatype list_call =
    AddFile world path
  | RemoveFile path
  | UpdateFromFilelist Config world
  | LoadScreenshots Config world
  | Reload Config world

fun call :: "ScreenshotList \<Rightarrow> list_call \<Rightarrow> ScreenshotList outcome" where
  "call s (AddFile w p) = add_file w s p"
| "call s (RemoveFile p) = Returned (remove_file s p)"
| "call s (UpdateFromFilelist cfg w) = update_from_filelist cfg w s"
| "call s (LoadScreenshots cfg w) = load_screenshots cfg w s"
| "call s (Reload cfg w) = reload cfg w s"

fun call_all :: "ScreenshotList \<Rightarrow> list_call list \<Rightarrow> ScreenshotList" where
  "call_all s [] = s"
| "call_all s (c # cs) = call_all (state_of (call s c)) cs"

definition paths :: "ScreenshotList \<Rightarrow> path list" where
  "paths s = map file_path (entries s)"

text \<open>Newest first: no entry is followed by one with a greater timestamp.\<close>

definition newest_first :: "ScreenshotListItem list \<Rightarrow> bool" where
  "newest_first es = sorted_wrt (\<lambda>a b. timestamp b \<le> timestamp a) es"

text \<open>
  The order the specification describes: newer entries first, and of two entries with
  the same timestamp the one with the smaller path first. It is not taken from the
  program; the program's lists are compared with it.
\<close>

definition spec_order :: "ScreenshotListItem \<Rightarrow> ScreenshotListItem \<Rightarrow> bool" where
  "spec_order a b \<longleftrightarrow>
     timestamp a > timestamp b \<or> (timestamp a = timestamp b \<and> file_path a < file_path b)"

text \<open>The two facts every call keeps: one entry per path, newest first.\<close>

definition list_inv :: "ScreenshotList \<Rightarrow> bool" where
  "list_inv s \<longleftrightarrow> distinct (paths s) \<and> newest_first (entries s)"

text \<open>
  An entry can be built for a path: its modification time can be read and turned into
  a date.
\<close>

definition loadable :: "world \<Rightarrow> path \<Rightarrow> bool" where
  "loadable w p \<longleftrightarrow>
     (case getmtime w p of
        Inl e \<Rightarrow> False
      | Inr t \<Rightarrow> (case strftime w t of Inl e \<Rightarrow> False | Inr date \<Rightarrow> True))"

text \<open>The files below a folder that are at most 86400 seconds old.\<close>

definition fresh_files :: "world \<Rightarrow> path \<Rightarrow> path set" where
  "fresh_files w folder =
     {p \<in> set (walk w folder). \<exists>m. getmtime w p = Inr m \<and> time_now w - 86400 \<le> m}"

subsection \<open>A concrete world\<close>

text \<open>
  Three images, two of them with the same modification time; a text file that is no
  image; an image whose modification time lies in the year 11476, beyond what
  \<^verbatim>\<open>datetime\<close> can hold; and a list file that names \<^verbatim>\<open>/b.png\<close>, \<^verbatim>\<open>/c.png\<close> (with blanks
  around it), an empty line and a file that does not exist. The folder source is
  switched off.
\<close>

definition demo_lines :: "str list" where
  "demo_lines =
     [ascii ''/b.png'' @ [0x0A], ascii ''  /c.png '' @ [0x0A], [0x0A],
      ascii ''/gone.png'' @ [0x0A]]"

definition demo_world :: world where
  "demo_world =
     \<lparr> getmtime = (\<lambda>p. if p = ascii ''/a.png'' then Inr 100
                        else if p = ascii ''/b.png'' then Inr 100
                        else if p = ascii ''/c.png'' then Inr 300
                        else if p = ascii ''/notes.txt'' then Inr 5
                        else if p = ascii ''/future.png'' then Inr 300000000000
                        else if p = ascii ''/list.txt'' then Inr 400 else Inl OSError),
       strftime = (\<lambda>t. if 0 \<le> t \<and> t < 253402300800 then Inr (ascii ''date'')
                        else Inl ValueError),
       isfile = (\<lambda>p. p \<in> set [ascii ''/a.png'', ascii ''/b.png'', ascii ''/c.png'',
                                 ascii ''/notes.txt'', ascii ''/future.png'',
                                 ascii ''/list.txt'']),
       isdir = (\<lambda>p. False),
       walk = (\<lambda>p. []),
       readlines = (\<lambda>p. if p = ascii ''/list.txt'' then Inr demo_lines else Inl OSError),
       QImage_size = (\<lambda>p. if p \<in> set [ascii ''/a.png'', ascii ''/b.png'', ascii ''/c.png'',
                                      ascii ''/future.png'']
                           then Some (640, 480) else None),
       time_now = 500,
       set_order = (\<lambda>A. filter (\<lambda>p. p \<in> A)
                          [ascii ''/a.png'', ascii ''/b.png'', ascii ''/c.png'']) \<rparr>"

text \<open>The list source on, as the settings dialog stores it; and both sources off.\<close>

definition demo_config :: Config where
  "demo_config =
     \<lparr> screenshot_source_folder_use = False, screenshot_source_folder_path = ascii ''/shots'',
       screenshot_source_filelist_use = True,
       screenshot_source_filelist_path = ascii ''/list.txt'' \<rparr>"

definition off_config :: Config where
  "off_config =
     \<lparr> screenshot_source_folder_use = False, screenshot_source_folder_path = ascii ''/shots'',
       screenshot_source_filelist_use = False,
       screenshot_source_filelist_path = ascii ''/list.txt'' \<rparr>"

text \<open>A list that has no entry yet, with an observer that was never started.\<close>

definition empty_list :: ScreenshotList where
  "empty_list =
     \<lparr> entries = [], old_filelist = {}, observer_watches = [], observer_started = False \<rparr>"

text \<open>A list with one entry whose file has since disappeared.\<close>

definition one_entry :: ScreenshotList where
  "one_entry =
     \<lparr> entries = [\<lparr> file_path = ascii ''/gone.png'', timestamp = 7, image_size = (10, 10) \<rparr>],
       old_filelist = {}, observer_watches = [], observer_started = True \<rparr>"

text \<open>
  The program is started with both sources off. The user switches the list source on
  in the settings dialog and accepts it; later the user opens the dialog again and
  accepts it once more, with nothing changed.
\<close>

definition started :: "ScreenshotList outcome" where
  "started = ScreenshotList_init off_config demo_world"

definition accepted_once :: "ScreenshotList outcome" where
  "accepted_once = reload demo_config demo_world (state_of started)"

definition accepted_twice :: "ScreenshotList outcome" where
  "accepted_twice = reload demo_config demo_world (state_of accepted_once)"

text \<open>
  The list as the second \<^verbatim>\<open>load_screenshots\<close> hands it to \<^verbatim>\<open>update_from_filelist\<close>:
  \<^verbatim>\<open>self.clear()\<close> has emptied the entries and the known set is the one of the first
  load.
\<close>

definition cleared_bc :: ScreenshotList where
  "cleared_bc = (state_of accepted_once)\<lparr>entries := []\<rparr>"

section \<open>Properties of the editor\<close>

lemmas editor_defs = ScreenshotEditor_init_def mousePressEvent_def mouseMoveEvent_def
  mouseReleaseEvent_def scene_new_def add_item_def setRect_def addToGroup_def undo_def redo_def
  scene_addItem_def scene_removeItem_def set_drawing_style_def set_draw_pen_width_def save_def
  Let_def

subsection \<open>The invariant holds in every state the editor reaches\<close>

lemma editor_inv_init: "editor_inv (ScreenshotEditor_init path)"
  by (simp add: editor_inv_def ScreenshotEditor_init_def)

lemma editor_inv_undo: "editor_inv s \<Longrightarrow> editor_inv (undo s)"
  by (cases "items s" rule: rev_cases)
     (auto simp: editor_inv_def undo_def scene_removeItem_def Let_def list_all_iff)

lemma editor_inv_redo: "editor_inv s \<Longrightarrow> editor_inv (redo s)"
  by (cases "redo_items s" rule: rev_cases)
     (auto simp: editor_inv_def redo_def scene_addItem_def Let_def list_all_iff)

lemma editor_inv_press: "editor_inv s \<Longrightarrow> editor_inv (mousePressEvent s u p)"
  by (auto simp: editor_inv_def mousePressEvent_def scene_new_def add_item_def list_all_iff Let_def
      less_Suc_eq split: DrawingStyle.splits)

lemma editor_inv_fresh:
  "editor_inv s \<Longrightarrow> length (objects s) \<notin> set (items s)"
  by (auto simp: editor_inv_def list_all_iff)

lemma editor_inv_move:
  assumes "editor_inv s" and "mouseMoveEvent s u p = Returned s'"
  shows "editor_inv s'"
proof -
  have fresh: "removeAll (length (objects s)) (items s) = items s"
    using editor_inv_fresh[OF assms(1)] by simp
  from assms show ?thesis
    by (auto simp: mouseMoveEvent_def Let_def scene_new_def addToGroup_def setRect_def
        editor_inv_def list_all_iff less_Suc_eq fresh
        split: if_splits option.splits outcome.splits QGraphicsItem.splits prod.splits)
qed

lemma editor_inv_frame:
  "editor_inv (s\<lparr>changed := c\<rparr>) = editor_inv s"
  "editor_inv (s\<lparr>drawing_style := st\<rparr>) = editor_inv s"
  "editor_inv (s\<lparr>draw_pen := w\<rparr>) = editor_inv s"
  "editor_inv (s\<lparr>mouse_pressed := m\<rparr>) = editor_inv s"
  by (simp_all add: editor_inv_def)

lemma editor_inv_perform:
  assumes "editor_inv s" and "perform s a = Returned s'"
  shows "editor_inv s'"
proof (cases a)
  case (Move u p)
  with assms show ?thesis by (auto dest: editor_inv_move)
next
  case (Press u p)
  with assms show ?thesis by (auto simp: editor_inv_press)
next
  case Undo
  with assms show ?thesis by (auto simp: editor_inv_undo)
next
  case Redo
  with assms show ?thesis by (auto simp: editor_inv_redo)
qed (use assms in \<open>auto simp: save_def set_drawing_style_def set_draw_pen_width_def
       mouseReleaseEvent_def editor_inv_frame\<close>)

lemma editor_inv_perform_all:
  "editor_inv s \<Longrightarrow> perform_all s as = Returned s' \<Longrightarrow> editor_inv s'"
proof (induction as arbitrary: s)
  case Nil
  then show ?case by simp
next
  case (Cons a as)
  then show ?case
    by (auto split: outcome.splits dest: editor_inv_perform)
qed

subsection \<open>Undo followed by redo\<close>

lemma redo_undo: "editor_inv s \<Longrightarrow> items s \<noteq> [] \<Longrightarrow> redo (undo s) = s"
  by (cases "items s" rule: rev_cases)
     (auto simp: editor_inv_def undo_def redo_def scene_removeItem_def scene_addItem_def Let_def)

lemma length_items_undo: "length (items (undo s)) = length (items s) - 1"
  by (simp add: undo_def scene_removeItem_def Let_def)

lemma length_items_funpow_undo: "length (items ((undo ^^ n) s)) = length (items s) - n"
  by (induction n) (simp_all add: length_items_undo)

lemma redo_funpow_undo_funpow:
  "editor_inv s \<Longrightarrow> length (items s) = n \<Longrightarrow> (redo ^^ n) ((undo ^^ n) s) = s"
proof (induction n arbitrary: s)
  case 0
  then show ?case by simp
next
  case (Suc n)
  have ne: "items s \<noteq> []" using Suc.prems(2) by auto
  have "(redo ^^ Suc n) ((undo ^^ Suc n) s) = redo ((redo ^^ n) ((undo ^^ n) (undo s)))"
    by (simp add: funpow_swap1)
  also have "(redo ^^ n) ((undo ^^ n) (undo s)) = undo s"
    using Suc.prems by (intro Suc.IH) (simp_all add: editor_inv_undo length_items_undo)
  also have "redo (undo s) = s"
    using Suc.prems(1) ne by (rule redo_undo)
  finally show ?case .
qed

lemma reached_round_trip:
  assumes "perform_all (ScreenshotEditor_init path) acts = Returned s"
  shows "items ((undo ^^ length (items s)) s) = [] \<and>
         (redo ^^ length (items s)) ((undo ^^ length (items s)) s) = s"
proof -
  have inv: "editor_inv s"
    using editor_inv_init assms by (rule editor_inv_perform_all)
  have "length (items ((undo ^^ length (items s)) s)) = 0"
    by (simp add: length_items_funpow_undo)
  moreover have "(redo ^^ length (items s)) ((undo ^^ length (items s)) s) = s"
    using inv by (rule redo_funpow_undo_funpow) simp
  ultimately show ?thesis by simp
qed

subsection \<open>Gestures run to their end\<close>

lemma perform_all_append:
  "perform_all s (xs @ ys) =
     (case perform_all s xs of Returned s' \<Rightarrow> perform_all s' ys | Raised e s' \<Rightarrow> Raised e s')"
  by (induction xs arbitrary: s) (auto split: outcome.splits)

lemma perform_all_moves: "perform_all s (map (Move True) ps) = drag s ps"
  by (induction ps arbitrary: s) (auto split: outcome.splits)

lemma shaping_press:
  "drawing_style s \<in> {ELLIPSE, RECT} \<Longrightarrow>
   shaping (mousePressEvent s True anchor) anchor (length (objects s))"
  by (auto simp: shaping_def mousePressEvent_def scene_new_def add_item_def Let_def)

lemma items_press:
  "drawing_style s \<in> {ELLIPSE, RECT} \<Longrightarrow>
   items (mousePressEvent s True anchor) = items s @ [length (objects s)]"
  by (auto simp: mousePressEvent_def scene_new_def add_item_def Let_def)

lemma shaping_move:
  assumes "shaping s anchor r"
  shows "\<exists>s'. mouseMoveEvent s True p = Returned s' \<and> shaping s' anchor r \<and>
           items s' = items s \<and>
           rect_of (objects s' ! r) =
             Some (fst anchor, snd anchor, fst p - fst anchor, snd p - snd anchor)"
proof (cases "objects s ! r")
  case (QGraphicsEllipseItem x y w h pw)
  with assms show ?thesis
    by (auto simp: shaping_def mouseMoveEvent_def setRect_def Let_def)
next
  case (QGraphicsRectItem x y w h pw)
  with assms show ?thesis
    by (auto simp: shaping_def mouseMoveEvent_def setRect_def Let_def)
qed (use assms in \<open>auto simp: shaping_def\<close>)

lemma shaping_drag_any:
  "shaping s anchor r \<Longrightarrow> \<exists>s'. drag s ps = Returned s' \<and> items s' = items s"
proof (induction ps arbitrary: s)
  case Nil
  then show ?case by simp
next
  case (Cons q ps)
  from shaping_move[OF Cons.prems, of q] obtain s1
    where s1: "mouseMoveEvent s True q = Returned s1" "shaping s1 anchor r" "items s1 = items s"
    by blast
  from Cons.IH[OF s1(2)] s1(1,3) show ?case by auto
qed

lemma shaping_drag:
  assumes "shaping s anchor r"
  shows "\<exists>s'. drag s (ps @ [p]) = Returned s' \<and> items s' = items s \<and>
           rect_of (objects s' ! r) =
             Some (fst anchor, snd anchor, fst p - fst anchor, snd p - snd anchor)"
  using assms
proof (induction ps arbitrary: s)
  case Nil
  from shaping_move[OF Nil, of p] show ?case by auto
next
  case (Cons q ps)
  from shaping_move[OF Cons.prems, of q] obtain s1
    where s1: "mouseMoveEvent s True q = Returned s1" "shaping s1 anchor r" "items s1 = items s"
    by blast
  from Cons.IH[OF s1(2)] s1(1,3) show ?case by auto
qed

lemma penning_press:
  "drawing_style s = PEN \<Longrightarrow> penning (mousePressEvent s True anchor) (length (objects s))"
  by (auto simp: penning_def mousePressEvent_def scene_new_def add_item_def Let_def)

lemma penning_move:
  assumes "penning s r"
  shows "\<exists>s'. mouseMoveEvent s True p = Returned s' \<and> penning s' r \<and> items s' = items s"
proof -
  from assms obtain children prev where
    c: "objects s ! r = QGraphicsItemGroup children" and pp: "previous_point s = Some prev"
    by (auto simp: penning_def)
  with assms show ?thesis
    by (auto simp: penning_def mouseMoveEvent_def scene_new_def addToGroup_def Let_def nth_append)
qed

lemma penning_drag:
  "penning s r \<Longrightarrow> \<exists>s'. drag s ps = Returned s' \<and> items s' = items s"
proof (induction ps arbitrary: s)
  case Nil
  then show ?case by simp
next
  case (Cons q ps)
  from penning_move[OF Cons.prems, of q] obtain s1
    where s1: "mouseMoveEvent s True q = Returned s1" "penning s1 r" "items s1 = items s"
    by blast
  from Cons.IH[OF s1(2)] s1(1,3) show ?case by auto
qed

lemma idle_drag: "drawing_style s = NONE \<Longrightarrow> drag s ps = Returned s"
  by (induction ps) (auto simp: mouseMoveEvent_def)

lemma press_drag_returns:
  "\<exists>s'. drag (mousePressEvent (set_drawing_style s style) True anchor) ps = Returned s' \<and>
        length (items s') = length (items s) + (if style = NONE then 0 else 1)"
proof (cases style)
  case NONE
  have "drag (mousePressEvent (set_drawing_style s NONE) True anchor) ps =
        Returned (mousePressEvent (set_drawing_style s NONE) True anchor)"
    by (rule idle_drag) (simp add: mousePressEvent_def set_drawing_style_def)
  with NONE show ?thesis by (simp add: mousePressEvent_def set_drawing_style_def)
next
  case PEN
  let ?s0 = "set_drawing_style s PEN"
  have st: "drawing_style ?s0 = PEN" by (simp add: set_drawing_style_def)
  from penning_drag[OF penning_press[OF st], of anchor ps] obtain s' where
    "drag (mousePressEvent ?s0 True anchor) ps = Returned s'"
    "items s' = items (mousePressEvent ?s0 True anchor)" by blast
  with PEN show ?thesis
    by (auto simp: mousePressEvent_def set_drawing_style_def scene_new_def add_item_def)
next
  case ELLIPSE
  let ?s0 = "set_drawing_style s ELLIPSE"
  have st: "drawing_style ?s0 \<in> {ELLIPSE, RECT}" by (simp add: set_drawing_style_def)
  from shaping_drag_any[OF shaping_press[OF st], of anchor ps] obtain s' where
    "drag (mousePressEvent ?s0 True anchor) ps = Returned s'"
    "items s' = items (mousePressEvent ?s0 True anchor)" by blast
  with ELLIPSE show ?thesis
    by (auto simp: mousePressEvent_def set_drawing_style_def scene_new_def add_item_def)
next
  case RECT
  let ?s0 = "set_drawing_style s RECT"
  have st: "drawing_style ?s0 \<in> {ELLIPSE, RECT}" by (simp add: set_drawing_style_def)
  from shaping_drag_any[OF shaping_press[OF st], of anchor ps] obtain s' where
    "drag (mousePressEvent ?s0 True anchor) ps = Returned s'"
    "items s' = items (mousePressEvent ?s0 True anchor)" by blast
  with RECT show ?thesis
    by (auto simp: mousePressEvent_def set_drawing_style_def scene_new_def add_item_def)
qed

lemma gesture_returns:
  "\<exists>s'. perform_all s (gesture_actions g) = Returned s' \<and>
        length (items s') = length (items s) + (if fst g = NONE then 0 else 1)"
proof -
  obtain style anchor ps where g: "g = (style, anchor, ps)" by (cases g)
  from press_drag_returns[of s style anchor ps] obtain s1 where
    s1: "drag (mousePressEvent (set_drawing_style s style) True anchor) ps = Returned s1"
      "length (items s1) = length (items s) + (if style = NONE then 0 else 1)" by blast
  then show ?thesis
    by (simp add: g perform_all_append perform_all_moves mouseReleaseEvent_def)
qed

lemma gestures_return:
  "\<exists>s'. perform_all s (gestures_actions gs) = Returned s' \<and>
        length (items s') = length (items s) + length (filter (\<lambda>g. fst g \<noteq> NONE) gs)"
proof (induction gs arbitrary: s)
  case Nil
  then show ?case by (simp add: gestures_actions_def)
next
  case (Cons g gs)
  from gesture_returns[of s g] obtain s1 where
    s1: "perform_all s (gesture_actions g) = Returned s1"
      "length (items s1) = length (items s) + (if fst g = NONE then 0 else 1)" by blast
  from Cons.IH[of s1] obtain s' where
    "perform_all s1 (gestures_actions gs) = Returned s'"
    "length (items s') = length (items s1) + length (filter (\<lambda>g. fst g \<noteq> NONE) gs)" by blast
  with s1 show ?case
    by (auto simp: gestures_actions_def perform_all_append)
qed

subsection \<open>The bounding box of an ellipse or rectangle (C1)\<close>

text \<open>
  Claim C1, as amended. An ellipse or rectangle is started by a press at \<open>anchor\<close> and
  then pulled through any points \<open>ps\<close> and at last to \<open>p\<close>. Every move returns, the new
  item stays the last of \<open>items\<close>, and its box is the one \<^verbatim>\<open>setRect\<close> was given: the
  origin is the anchor, the width and height are \<open>p - anchor\<close> with their sign. The box
  has the anchor and \<open>p\<close> as opposite corners; it is the normalized box when \<open>p\<close> lies
  neither left of nor above the anchor, and nothing in the editor normalizes it
  otherwise.
\<close>

theorem extend_sets_rect_from_anchor:
  assumes "drawing_style s \<in> {ELLIPSE, RECT}"
  shows "\<exists>s'. drag (mousePressEvent s True anchor) (ps @ [p]) = Returned s' \<and>
           items s' = items s @ [length (objects s)] \<and>
           rect_of (objects s' ! last (items s')) =
             Some (fst anchor, snd anchor, fst p - fst anchor, snd p - snd anchor) \<and>
           (fst anchor \<le> fst p \<and> snd anchor \<le> snd p \<longrightarrow>
              rect_of (objects s' ! last (items s')) = Some (normalized_box anchor p))"
  using shaping_drag[OF shaping_press[OF assms], of anchor ps p] items_press[OF assms, of anchor]
  by (auto simp: normalized_box_def)

text \<open>
  The theorem at work: a rectangle pulled from \<open>(10, 10)\<close> over \<open>(12, 7)\<close> to \<open>(15, 20)\<close>.
\<close>

theorem extend_sets_rect_from_anchor_witness:
  "drawing_style (set_drawing_style (ScreenshotEditor_init ''a.png'') RECT) \<in> {ELLIPSE, RECT} \<and>
   (\<exists>s'. drag (mousePressEvent (set_drawing_style (ScreenshotEditor_init ''a.png'') RECT)
             True (10, 10)) ([(12, 7)] @ [(15, 20)]) = Returned s' \<and>
         items s' = [1] \<and>
         rect_of (objects s' ! last (items s')) = Some (10, 10, 5, 10) \<and>
         rect_of (objects s' ! last (items s')) = Some (normalized_box (10, 10) (15, 20)))"
  using extend_sets_rect_from_anchor
          [of "set_drawing_style (ScreenshotEditor_init ''a.png'') RECT" "(10, 10)"
              "[(12, 7)]" "(15, 20)"]
  by (simp add: set_drawing_style_def ScreenshotEditor_init_def)

text \<open>
  Claim C1 as it is written fails: the ellipse started at \<open>(10, 10)\<close> and pulled to
  \<open>(5, 5)\<close> holds the box with origin \<open>(10, 10)\<close> and size \<open>-5\<close> by \<open>-5\<close>, not the
  normalized box \<open>(5, 5)\<close> with size 5 by 5.
\<close>

theorem extend_not_normalized_counterexample:
  "rect_of (objects (state_of ellipse_up_left) ! last (items (state_of ellipse_up_left))) =
     Some (10, 10, - 5, - 5) \<and>
   normalized_box (10, 10) (5, 5) = (5, 5, 5, 5) \<and>
   rect_of (objects (state_of ellipse_up_left) ! last (items (state_of ellipse_up_left))) \<noteq>
     Some (normalized_box (10, 10) (5, 5))"
  by (simp add: ellipse_up_left_def normalized_box_def editor_defs)

subsection \<open>Undoing everything and redoing everything (C4)\<close>

text \<open>
  Claim C4. Any sequence of gestures on a freshly opened editor runs to its end without
  an exception and leaves as many operations \<open>N\<close> as there were gestures with a drawing
  style. Calling \<^verbatim>\<open>undo\<close> \<open>N\<close> times empties \<open>items\<close>, and calling \<^verbatim>\<open>redo\<close> \<open>N\<close> times
  after that gives back the very state the gestures left: the same operations in the
  same order, the same scene, and so the same shapes painted in the same order.
\<close>

theorem undo_all_redo_all_restores:
  "\<exists>s. perform_all (ScreenshotEditor_init path) (gestures_actions gs) = Returned s \<and>
       length (items s) = length (filter (\<lambda>g. fst g \<noteq> NONE) gs) \<and>
       items ((undo ^^ length (items s)) s) = [] \<and>
       (redo ^^ length (items s)) ((undo ^^ length (items s)) s) = s \<and>
       render_to_image ((redo ^^ length (items s)) ((undo ^^ length (items s)) s)) =
         render_to_image s"
proof -
  from gestures_return[of "ScreenshotEditor_init path" gs] obtain s where
    s: "perform_all (ScreenshotEditor_init path) (gestures_actions gs) = Returned s"
      "length (items s) = length (items (ScreenshotEditor_init path)) +
         length (filter (\<lambda>g. fst g \<noteq> NONE) gs)" by blast
  from s(2) have "length (items s) = length (filter (\<lambda>g. fst g \<noteq> NONE) gs)"
    by (simp add: ScreenshotEditor_init_def)
  with s(1) reached_round_trip[OF s(1)] show ?thesis by auto
qed

text \<open>The theorem at work on an ellipse followed by a pen stroke: \<open>N = 2\<close>.\<close>

theorem undo_all_redo_all_restores_witness:
  "\<exists>s. perform_all (ScreenshotEditor_init ''a.png'') (gestures_actions two_gestures) = Returned s \<and>
       length (items s) = 2 \<and>
       items (undo (undo s)) = [] \<and>
       redo (redo (undo (undo s))) = s"
  using undo_all_redo_all_restores[of "''a.png''" two_gestures]
  by (auto simp: two_gestures_def numeral_2_eq_2)

subsection \<open>A new operation empties the redo list (C5)\<close>

text \<open>
  Claim C5. \<^verbatim>\<open>add_item\<close> empties \<open>redo_items\<close>, whatever had been undone before, so a
  \<^verbatim>\<open>redo\<close> right after it changes nothing. The same holds for a press on the photo with
  any drawing style, which is how a new operation is started.
\<close>

theorem new_operation_invalidates_redo:
  "redo_items (add_item s item) = [] \<and> redo (add_item s item) = add_item s item \<and>
   (drawing_style s \<noteq> NONE \<longrightarrow>
      redo_items (mousePressEvent s True p) = [] \<and>
      redo (mousePressEvent s True p) = mousePressEvent s True p)"
  by (cases "drawing_style s")
     (simp_all add: add_item_def redo_def mousePressEvent_def scene_new_def Let_def)

text \<open>
  The theorem at work: one pen stroke was undone, so \<open>redo_items\<close> holds it; a new press
  empties the list and \<^verbatim>\<open>redo\<close> has nothing left to bring back.
\<close>

theorem new_operation_invalidates_redo_witness:
  "redo_items undone_once = [1] \<and> drawing_style undone_once \<noteq> NONE \<and>
   redo_items (mousePressEvent undone_once True (4, 4)) = [] \<and>
   redo (mousePressEvent undone_once True (4, 4)) = mousePressEvent undone_once True (4, 4)"
  using new_operation_invalidates_redo[of undone_once 2 "(4, 4)"]
  by (simp add: undone_once_def editor_defs)

subsection \<open>The flag \<open>changed\<close> (C9, C10)\<close>

text \<open>
  Claim C9, as amended. A pointer move that extends an operation (the button is down,
  the pointer is over the photo, a drawing style is chosen, and the move returns) sets
  \<open>changed\<close>; \<^verbatim>\<open>save\<close> clears it; starting an operation, by \<^verbatim>\<open>add_item\<close> or by the press
  that calls it, leaves \<open>changed\<close> as it was.
\<close>

theorem extend_sets_changed_save_clears:
  "(mouse_pressed s \<and> drawing_style s \<noteq> NONE \<and> mouseMoveEvent s True p = Returned s'
      \<longrightarrow> changed s') \<and>
   \<not> changed (save s) \<and>
   changed (add_item s item) = changed s \<and>
   changed (mousePressEvent s u p) = changed s"
  by (cases "drawing_style s")
     (auto simp: mouseMoveEvent_def setRect_def addToGroup_def scene_new_def save_def add_item_def
        mousePressEvent_def Let_def
        split: if_splits option.splits QGraphicsItem.splits outcome.splits prod.splits)

text \<open>
  The theorem at work: after one press with the pen the flag is still clear, the first
  move sets it, and \<^verbatim>\<open>save\<close> clears it again.
\<close>

theorem extend_sets_changed_save_clears_witness:
  "mouse_pressed pressed_once \<and> drawing_style pressed_once \<noteq> NONE \<and>
   mouseMoveEvent pressed_once True (2, 2) =
     Returned (state_of (mouseMoveEvent pressed_once True (2, 2))) \<and>
   changed (state_of (mouseMoveEvent pressed_once True (2, 2))) \<and>
   \<not> changed (save (state_of (mouseMoveEvent pressed_once True (2, 2))))"
proof -
  have h: "mouse_pressed pressed_once \<and> drawing_style pressed_once \<noteq> NONE \<and>
      mouseMoveEvent pressed_once True (2, 2) =
        Returned (state_of (mouseMoveEvent pressed_once True (2, 2)))"
    by (simp add: pressed_once_def editor_defs)
  from extend_sets_changed_save_clears
         [where s = pressed_once and p = "(2, 2)"
            and s' = "state_of (mouseMoveEvent pressed_once True (2, 2))"] h
  have "changed (state_of (mouseMoveEvent pressed_once True (2, 2)))" by simp
  moreover from extend_sets_changed_save_clears
         [where s = "state_of (mouseMoveEvent pressed_once True (2, 2))"]
  have "\<not> changed (save (state_of (mouseMoveEvent pressed_once True (2, 2))))" by simp
  ultimately show ?thesis using h by simp
qed

text \<open>
  Claim C9 as it is written fails: a press with the pen on a fresh editor starts an
  operation (\<open>items\<close> is no longer empty) and \<open>changed\<close> is still false; undoing that
  operation leaves it false as well.
\<close>

theorem begin_leaves_flag_counterexample:
  "items (ScreenshotEditor_init ''a.png'') = [] \<and> items pressed_once = [1] \<and>
   \<not> changed pressed_once \<and>
   items (undo pressed_once) = [] \<and> \<not> changed (undo pressed_once)"
  by (simp add: pressed_once_def editor_defs)

text \<open>
  Claim C10, as amended. \<^verbatim>\<open>undo\<close> and \<^verbatim>\<open>redo\<close> leave \<open>changed\<close> exactly as it was. Of
  the editor's state they modify \<open>items\<close>, \<open>redo_items\<close> and the scene, and nothing
  else: the pressed flag, the previous point, the style, the pen, the photo and every
  item's geometry stay as they were. With a non-empty \<open>items\<close>, \<^verbatim>\<open>undo\<close> moves the last
  item of \<open>items\<close> to the end of \<open>redo_items\<close> and removes it from the scene. With a
  non-empty \<open>redo_items\<close>, \<^verbatim>\<open>redo\<close> moves the last item of \<open>redo_items\<close> to the end of
  \<open>items\<close> and adds it to the scene, at the end unless the scene already holds it. On
  an empty list either call changes nothing at all.
\<close>

theorem undo_redo_frame:
  "changed (undo s) = changed s \<and> changed (redo s) = changed s \<and>
   undo s = s\<lparr>items := items (undo s), redo_items := redo_items (undo s),
              scene := scene (undo s)\<rparr> \<and>
   redo s = s\<lparr>items := items (redo s), redo_items := redo_items (redo s),
              scene := scene (redo s)\<rparr> \<and>
   (items s \<noteq> [] \<longrightarrow>
      items (undo s) = butlast (items s) \<and>
      redo_items (undo s) = redo_items s @ [last (items s)] \<and>
      scene (undo s) = removeAll (last (items s)) (scene s)) \<and>
   (items s = [] \<longrightarrow> undo s = s) \<and>
   (redo_items s \<noteq> [] \<longrightarrow>
      redo_items (redo s) = butlast (redo_items s) \<and>
      items (redo s) = items s @ [last (redo_items s)] \<and>
      scene (redo s) =
        (if last (redo_items s) \<in> set (scene s) then scene s
         else scene s @ [last (redo_items s)])) \<and>
   (redo_items s = [] \<longrightarrow> redo s = s)"
  by (simp add: undo_def redo_def scene_removeItem_def scene_addItem_def Let_def)

text \<open>
  The theorem at work on the editor with one pen stroke: \<^verbatim>\<open>undo\<close> takes the stroke out
  of \<open>items\<close> and out of the scene, \<^verbatim>\<open>redo\<close> puts it back into both, and \<open>changed\<close> and
  the store of items stay as they were.
\<close>

theorem undo_redo_frame_witness:
  "items pressed_once \<noteq> [] \<and> redo_items (undo pressed_once) \<noteq> [] \<and>
   changed (undo pressed_once) = changed pressed_once \<and>
   changed (redo (undo pressed_once)) = changed pressed_once \<and>
   objects (undo pressed_once) = objects pressed_once \<and>
   items (undo pressed_once) = [] \<and> redo_items (undo pressed_once) = [1] \<and>
   scene pressed_once = [0, 1] \<and> scene (undo pressed_once) = [0] \<and>
   items (redo (undo pressed_once)) = [1] \<and> redo_items (redo (undo pressed_once)) = [] \<and>
   scene (redo (undo pressed_once)) = [0, 1]"
proof -
  have h: "items pressed_once \<noteq> []" "redo_items (undo pressed_once) \<noteq> []"
    "items pressed_once = [1]" "redo_items pressed_once = []" "scene pressed_once = [0, 1]"
    "objects (undo pressed_once) = objects pressed_once"
    by (simp_all add: pressed_once_def editor_defs)
  from undo_redo_frame[of pressed_once] h
  have u: "changed (undo pressed_once) = changed pressed_once"
    "items (undo pressed_once) = []" "redo_items (undo pressed_once) = [1]"
    "scene (undo pressed_once) = [0]"
    by simp_all
  from undo_redo_frame[of "undo pressed_once"] h(2) u
  have r: "changed (redo (undo pressed_once)) = changed pressed_once"
    "items (redo (undo pressed_once)) = [1]" "redo_items (redo (undo pressed_once)) = []"
    "scene (redo (undo pressed_once)) = [0, 1]"
    by simp_all
  from h u r show ?thesis by simp
qed

text \<open>
  Claim C10 as it is written fails in its second half: \<open>items\<close> and \<open>redo_items\<close> are not
  the only state \<^verbatim>\<open>undo\<close> modifies. \<^verbatim>\<open>self.scene.removeItem(item)\<close> takes the item out
  of the scene, which held the photo and the item before and holds the photo alone after.
\<close>

theorem undo_changes_scene_counterexample:
  "scene pressed_once = [0, 1] \<and> scene (undo pressed_once) = [0] \<and>
   scene (undo pressed_once) \<noteq> scene pressed_once"
  by (simp add: pressed_once_def editor_defs)

section \<open>Properties of the list\<close>

lemmas list_defs = paths_def add_file_def remove_file_def sortItems_def takeItem_def lt_def
  ScreenshotListItem_init_def ScreenshotList_init_def load_screenshots_def
  update_from_filelist_def read_filelist_def strip_def isspace_def Let_def
  reload_file_watcher_def reload_def ascii_def
  demo_world_def demo_config_def off_config_def demo_lines_def empty_list_def

subsection \<open>Sorting\<close>

lemma mset_insort_lt: "mset (insort_lt x xs) = add_mset x (mset xs)"
  by (induction xs) auto

lemma mset_foldl_insort_lt: "mset (foldl (\<lambda>acc x. insort_lt x acc) acc xs) = mset acc + mset xs"
  by (induction xs arbitrary: acc) (auto simp: mset_insort_lt)

lemma mset_sortItems: "mset (sortItems es) = mset es"
  by (simp add: sortItems_def mset_foldl_insort_lt)

lemma set_sortItems: "set (sortItems es) = set es"
  using mset_sortItems[of es] by (metis set_mset_mset)

lemma set_insort_lt: "set (insort_lt x xs) = insert x (set xs)"
  using mset_insort_lt[of x xs] by (metis set_mset_mset set_mset_add_mset_insert)

lemma newest_first_insort_lt: "newest_first xs \<Longrightarrow> newest_first (insort_lt x xs)"
  by (induction xs) (auto simp: newest_first_def lt_def set_insort_lt)

lemma newest_first_foldl:
  "newest_first acc \<Longrightarrow> newest_first (foldl (\<lambda>acc x. insort_lt x acc) acc xs)"
  by (induction xs arbitrary: acc) (auto simp: newest_first_insort_lt)

lemma newest_first_sortItems: "newest_first (sortItems es)"
proof -
  have "newest_first []" by (simp add: newest_first_def)
  then show ?thesis unfolding sortItems_def by (rule newest_first_foldl)
qed

lemma mset_paths_sortItems: "mset (map file_path (sortItems es)) = mset (map file_path es)"
  by (metis mset_map mset_sortItems)

text \<open>
  Two lists that are both newest first and hold the same entries are equal as soon as no
  two entries share a timestamp.
\<close>

lemma newest_first_unique:
  assumes "newest_first xs" "newest_first ys" "set xs = set ys"
    "distinct (map timestamp xs)" "distinct (map timestamp ys)"
  shows "xs = ys"
proof -
  have sx: "sorted (rev (map timestamp xs))" and sy: "sorted (rev (map timestamp ys))"
    using assms(1,2) by (simp_all add: newest_first_def sorted_wrt_rev sorted_wrt_map)
  have "rev (map timestamp xs) = rev (map timestamp ys)"
    using sx sy assms(3-5) by (intro sorted_distinct_set_unique) (simp_all)
  then have eq: "map timestamp xs = map timestamp ys" by simp
  have "inj_on timestamp (set xs \<union> set ys)"
    using assms(3,4) by (simp add: distinct_map)
  with eq show ?thesis by (rule inj_on_map_eq_map[THEN iffD1, rotated])
qed

subsection \<open>remove_file\<close>

lemma find_row_None: "find_row p es = None \<longleftrightarrow> p \<notin> set (map file_path es)"
  by (induction es) auto

lemma find_row_Some:
  "find_row p es = Some row \<Longrightarrow>
   mset (map file_path (takeItem es row)) = mset (map file_path es) - {#p#}"
proof (induction es arbitrary: row)
  case Nil
  then show ?case by simp
next
  case (Cons e es)
  show ?case
  proof (cases "file_path e = p")
    case True
    with Cons.prems show ?thesis by (simp add: takeItem_def)
  next
    case False
    with Cons.prems obtain r where r: "find_row p es = Some r" "row = Suc r" by auto
    from Cons.IH[OF r(1)]
    have "mset (map file_path (takeItem es r)) = mset (map file_path es) - {#p#}" .
    with False r(2) show ?thesis by (simp add: takeItem_def)
  qed
qed

lemma mset_paths_remove_file: "mset (paths (remove_file s p)) = mset (remove1 p (paths s))"
proof (cases "find_row p (entries s)")
  case None
  then have "p \<notin> set (paths s)" by (simp add: find_row_None paths_def)
  then have "remove1 p (paths s) = paths s" by (simp add: remove1_idem)
  with None show ?thesis by (simp add: remove_file_def)
next
  case (Some row)
  have "paths (remove_file s p) = map file_path (sortItems (takeItem (entries s) row))"
    by (simp add: remove_file_def paths_def Some)
  then have "mset (paths (remove_file s p)) = mset (map file_path (takeItem (entries s) row))"
    by (simp only: mset_paths_sortItems)
  also have "\<dots> = mset (map file_path (entries s)) - {#p#}"
    using Some by (rule find_row_Some)
  finally show ?thesis by (simp add: paths_def)
qed

lemma distinct_paths_remove_file: "distinct (paths s) \<Longrightarrow> distinct (paths (remove_file s p))"
  using mset_eq_imp_distinct_iff[OF mset_paths_remove_file, of s p] by simp

lemma set_paths_remove_file:
  "distinct (paths s) \<Longrightarrow> set (paths (remove_file s p)) = set (paths s) - {p}"
  using mset_eq_setD[OF mset_paths_remove_file, of s p] by simp

lemma old_filelist_remove_file: "old_filelist (remove_file s p) = old_filelist s"
  by (simp add: remove_file_def split: option.splits)

lemma newest_first_remove_file:
  "newest_first (entries s) \<Longrightarrow> newest_first (entries (remove_file s p))"
  by (simp add: remove_file_def newest_first_sortItems split: option.splits)

subsection \<open>add_file\<close>

lemma add_file_Raised:
  "add_file w s p = Raised e s' \<Longrightarrow> s' = remove_file s p"
  by (auto simp: add_file_def ScreenshotListItem_init_def Let_def split: sum.splits)

lemma add_file_Returned:
  "add_file w s p = Returned s' \<Longrightarrow>
   \<exists>item. ScreenshotListItem_init w p = Inr item \<and> file_path item = p \<and>
     s' = (remove_file s p)\<lparr>entries := sortItems (entries (remove_file s p) @ [item])\<rparr>"
  by (auto simp: add_file_def ScreenshotListItem_init_def Let_def split: sum.splits)

lemma add_file_total:
  "loadable w p \<Longrightarrow> \<exists>s'. add_file w s p = Returned s'"
  by (auto simp: add_file_def ScreenshotListItem_init_def loadable_def Let_def split: sum.splits)

lemma paths_add_file:
  assumes "add_file w s p = Returned s'"
  shows "mset (paths s') = add_mset p (mset (remove1 p (paths s)))"
proof -
  from add_file_Returned[OF assms] obtain item where
    item: "file_path item = p"
      "s' = (remove_file s p)\<lparr>entries := sortItems (entries (remove_file s p) @ [item])\<rparr>"
    by blast
  have "paths s' = map file_path (sortItems (entries (remove_file s p) @ [item]))"
    by (simp add: paths_def item(2))
  then have "mset (paths s') = mset (map file_path (entries (remove_file s p) @ [item]))"
    by (simp only: mset_paths_sortItems)
  also have "\<dots> = add_mset p (mset (paths (remove_file s p)))"
    by (simp add: paths_def item(1))
  finally show ?thesis by (simp only: mset_paths_remove_file)
qed

lemma distinct_paths_add_file:
  assumes "distinct (paths s)"
  shows "distinct (paths (state_of (add_file w s p)))"
proof (cases "add_file w s p")
  case (Returned s')
  have "mset (paths s') = mset (p # remove1 p (paths s))"
    using paths_add_file[OF Returned] by simp
  from mset_eq_imp_distinct_iff[OF this] assms Returned show ?thesis by simp
next
  case (Raised e s')
  with add_file_Raised[OF Raised] assms show ?thesis
    by (simp add: distinct_paths_remove_file)
qed

lemma set_paths_add_file:
  assumes "add_file w s p = Returned s'"
  shows "set (paths s') = insert p (set (paths s))"
proof -
  have "mset (paths s') = mset (p # remove1 p (paths s))"
    using paths_add_file[OF assms] by simp
  from mset_eq_setD[OF this] show ?thesis
    by (auto dest: notin_set_remove1)
qed

lemma old_filelist_add_file: "old_filelist (state_of (add_file w s p)) = old_filelist s"
  by (auto simp: add_file_def Let_def old_filelist_remove_file split: sum.splits)

lemma newest_first_add_file:
  "newest_first (entries s) \<Longrightarrow> newest_first (entries (state_of (add_file w s p)))"
  by (auto simp: add_file_def Let_def newest_first_sortItems newest_first_remove_file
      split: sum.splits)

subsection \<open>Every call keeps one entry per path and the newest first\<close>

lemma list_inv_remove_file: "list_inv s \<Longrightarrow> list_inv (remove_file s p)"
  by (simp add: list_inv_def distinct_paths_remove_file newest_first_remove_file)

lemma list_inv_add_file: "list_inv s \<Longrightarrow> list_inv (state_of (add_file w s p))"
  by (simp add: list_inv_def distinct_paths_add_file newest_first_add_file)

lemma list_inv_add_files: "list_inv s \<Longrightarrow> list_inv (state_of (add_files w s ps))"
proof (induction ps arbitrary: s)
  case Nil
  then show ?case by simp
next
  case (Cons p ps)
  from list_inv_add_file[OF Cons.prems, of w p] Cons.IH show ?case
    by (cases "add_file w s p") auto
qed

lemma list_inv_remove_files: "list_inv s \<Longrightarrow> list_inv (remove_files s ps)"
  by (induction ps arbitrary: s) (auto simp: list_inv_remove_file)

lemma list_inv_old_filelist: "list_inv (s\<lparr>old_filelist := A\<rparr>) = list_inv s"
  by (simp add: list_inv_def paths_def)

lemma list_inv_update_from_filelist:
  assumes "list_inv s"
  shows "list_inv (state_of (update_from_filelist cfg w s))"
proof (cases "read_filelist cfg w")
  case (Inl e)
  with assms show ?thesis by (simp add: update_from_filelist_def)
next
  case (Inr new)
  let ?s1 = "s\<lparr>old_filelist := new\<rparr>"
  have inv1: "list_inv ?s1" using assms by (simp add: list_inv_old_filelist)
  show ?thesis
  proof (cases "add_files w ?s1 (set_order w (new - old_filelist s))")
    case (Returned s2)
    with list_inv_add_files[OF inv1, of w "set_order w (new - old_filelist s)"]
    have "list_inv s2" by simp
    then show ?thesis using Inr Returned
      by (simp add: update_from_filelist_def Let_def list_inv_remove_files)
  next
    case (Raised e s2)
    with list_inv_add_files[OF inv1, of w "set_order w (new - old_filelist s)"]
    show ?thesis using Inr by (simp add: update_from_filelist_def Let_def)
  qed
qed

lemma list_inv_scan_files: "list_inv s \<Longrightarrow> list_inv (state_of (scan_files w now s ps))"
proof (induction ps arbitrary: s)
  case Nil
  then show ?case by simp
next
  case (Cons p ps)
  from list_inv_add_file[OF Cons.prems, of w p] Cons.IH Cons.prems show ?case
    by (cases "add_file w s p") (auto split: sum.splits)
qed

lemma list_inv_clear: "list_inv (s\<lparr>entries := []\<rparr>)"
  by (simp add: list_inv_def paths_def newest_first_def)

lemma list_inv_load_screenshots: "list_inv (state_of (load_screenshots cfg w s))"
proof -
  let ?s0 = "s\<lparr>entries := []\<rparr>"
  let ?scan = "if screenshot_source_folder_use cfg \<and> isdir w (screenshot_source_folder_path cfg)
            then scan_files w (time_now w) ?s0 (walk w (screenshot_source_folder_path cfg))
            else Returned ?s0"
  have scan: "list_inv (state_of ?scan)"
    using list_inv_scan_files[OF list_inv_clear] by (simp add: list_inv_clear)
  show ?thesis
  proof (cases ?scan)
    case (Returned s1)
    with scan have "list_inv s1" by simp
    from list_inv_update_from_filelist[OF this] this Returned show ?thesis
      by (simp add: load_screenshots_def Let_def)
  next
    case (Raised e s1)
    with scan show ?thesis by (simp add: load_screenshots_def Let_def)
  qed
qed

lemma list_inv_observer:
  "list_inv (s\<lparr>observer_watches := ws\<rparr>) = list_inv s"
  "list_inv (s\<lparr>observer_started := st\<rparr>) = list_inv s"
  by (simp_all add: list_inv_def paths_def)

lemma list_inv_reload_file_watcher:
  "list_inv s \<Longrightarrow> list_inv (state_of (reload_file_watcher cfg w s))"
  by (simp add: reload_file_watcher_def Let_def list_inv_observer)

lemma list_inv_reload: "list_inv (state_of (reload cfg w s))"
proof (cases "load_screenshots cfg w s")
  case (Returned s1)
  with list_inv_load_screenshots[of cfg w s] have "list_inv s1" by simp
  from list_inv_reload_file_watcher[OF this] Returned show ?thesis
    by (simp add: reload_def)
next
  case (Raised e s1)
  with list_inv_load_screenshots[of cfg w s] show ?thesis by (simp add: reload_def)
qed

lemma list_inv_call: "list_inv s \<Longrightarrow> list_inv (state_of (call s c))"
  by (cases c)
     (simp_all add: list_inv_add_file list_inv_remove_file list_inv_update_from_filelist
        list_inv_load_screenshots list_inv_reload)

lemma list_inv_call_all: "list_inv s \<Longrightarrow> list_inv (call_all s cs)"
  by (induction cs arbitrary: s) (simp_all add: list_inv_call)

lemma list_inv_empty:
  "list_inv \<lparr> entries = [], old_filelist = known, observer_watches = ws,
              observer_started = st \<rparr>"
  by (simp add: list_inv_def paths_def newest_first_def)

subsection \<open>The order of the entries (C2)\<close>

text \<open>
  Claim C2, as amended. After any sequence of calls that change the list (\<^verbatim>\<open>add_file\<close>,
  \<^verbatim>\<open>remove_file\<close>, \<^verbatim>\<open>update_from_filelist\<close>, \<^verbatim>\<open>load_screenshots\<close>, \<^verbatim>\<open>reload\<close>, whether
  they return or raise), started on an empty list, the entries stand newest first: no
  entry is followed by one with a greater timestamp. The order is not strict and the
  path plays no part in it. Two lists built in this way that hold the same entries are
  in the same order whenever no two of their entries share a timestamp.
\<close>

theorem entries_newest_first:
  "newest_first (entries (call_all \<lparr> entries = [], old_filelist = known,
      observer_watches = ws, observer_started = st \<rparr> cs)) \<and>
   (set (entries (call_all \<lparr> entries = [], old_filelist = known,
        observer_watches = ws, observer_started = st \<rparr> cs)) =
      set (entries (call_all \<lparr> entries = [], old_filelist = known',
        observer_watches = ws', observer_started = st' \<rparr> cs')) \<and>
    distinct (map timestamp (entries (call_all \<lparr> entries = [], old_filelist = known,
        observer_watches = ws, observer_started = st \<rparr> cs))) \<and>
    distinct (map timestamp (entries (call_all \<lparr> entries = [], old_filelist = known',
        observer_watches = ws', observer_started = st' \<rparr> cs')))
    \<longrightarrow> entries (call_all \<lparr> entries = [], old_filelist = known,
           observer_watches = ws, observer_started = st \<rparr> cs) =
         entries (call_all \<lparr> entries = [], old_filelist = known',
           observer_watches = ws', observer_started = st' \<rparr> cs'))"
proof -
  have nf: "newest_first (entries (call_all \<lparr> entries = [], old_filelist = A,
      observer_watches = W, observer_started = S \<rparr> xs))" for A W S xs
    using list_inv_call_all[OF list_inv_empty, of A W S xs] by (simp add: list_inv_def)
  show ?thesis
    using nf[of known ws st cs] nf[of known' ws' st' cs'] by (auto intro: newest_first_unique)
qed

text \<open>
  The theorem at work: \<^verbatim>\<open>/b.png\<close> (time 100) and \<^verbatim>\<open>/c.png\<close> (time 300) added in either
  order give the same list, \<^verbatim>\<open>/c.png\<close> first.
\<close>

theorem entries_newest_first_witness:
  "newest_first (entries (call_all empty_list
      [AddFile demo_world (ascii ''/b.png''), AddFile demo_world (ascii ''/c.png'')])) \<and>
   entries (call_all empty_list
      [AddFile demo_world (ascii ''/b.png''), AddFile demo_world (ascii ''/c.png'')]) =
   entries (call_all empty_list
      [AddFile demo_world (ascii ''/c.png''), AddFile demo_world (ascii ''/b.png'')]) \<and>
   map file_path (entries (call_all empty_list
      [AddFile demo_world (ascii ''/b.png''), AddFile demo_world (ascii ''/c.png'')])) =
     [ascii ''/c.png'', ascii ''/b.png'']"
proof -
  let ?l = "entries (call_all empty_list
      [AddFile demo_world (ascii ''/b.png''), AddFile demo_world (ascii ''/c.png'')])"
  let ?r = "entries (call_all empty_list
      [AddFile demo_world (ascii ''/c.png''), AddFile demo_world (ascii ''/b.png'')])"
  have h: "set ?l = set ?r \<and> distinct (map timestamp ?l) \<and> distinct (map timestamp ?r)"
    by (simp add: list_defs)
  have p: "map file_path ?l = [ascii ''/c.png'', ascii ''/b.png'']"
    by (simp add: list_defs)
  have t: "newest_first ?l \<and> (set ?l = set ?r \<and> distinct (map timestamp ?l) \<and>
      distinct (map timestamp ?r) \<longrightarrow> ?l = ?r)"
    unfolding empty_list_def
    by (rule entries_newest_first
         [of "{}" "[]" False
             "[AddFile demo_world (ascii ''/b.png''), AddFile demo_world (ascii ''/c.png'')]"
             "{}" "[]" False
             "[AddFile demo_world (ascii ''/c.png''), AddFile demo_world (ascii ''/b.png'')]"])
  from t have nf: "newest_first ?l" by (rule conjunct1)
  from t h have eq: "?l = ?r" by (elim conjE) (erule mp, intro conjI)
  from nf eq p show ?thesis by (intro conjI)
qed

text \<open>
  Claim C2 as it is written fails where timestamps tie. \<^verbatim>\<open>/a.png\<close> and \<^verbatim>\<open>/b.png\<close> have
  the same modification time. Added as \<^verbatim>\<open>/b.png\<close>, \<^verbatim>\<open>/a.png\<close> they stay in that order,
  which is not the order by path; added the other way round, from the same files, they
  give the other list.
\<close>

theorem tie_order_counterexample:
  "map timestamp (entries (call_all empty_list
      [AddFile demo_world (ascii ''/b.png''), AddFile demo_world (ascii ''/a.png'')])) =
     [100, 100] \<and>
   paths (call_all empty_list
      [AddFile demo_world (ascii ''/b.png''), AddFile demo_world (ascii ''/a.png'')]) =
     [ascii ''/b.png'', ascii ''/a.png''] \<and>
   \<not> sorted_wrt spec_order (entries (call_all empty_list
      [AddFile demo_world (ascii ''/b.png''), AddFile demo_world (ascii ''/a.png'')])) \<and>
   paths (call_all empty_list
      [AddFile demo_world (ascii ''/a.png''), AddFile demo_world (ascii ''/b.png'')]) =
     [ascii ''/a.png'', ascii ''/b.png'']"
  by (simp add: list_defs spec_order_def)

subsection \<open>One entry per path (C3)\<close>

text \<open>
  Claim C3. After any sequence of calls started on an empty list, no two entries have the
  same path. The sequence may hold \<^verbatim>\<open>add_file\<close> and \<^verbatim>\<open>remove_file\<close> in any order, and
  \<^verbatim>\<open>update_from_filelist\<close>, \<^verbatim>\<open>load_screenshots\<close> and \<^verbatim>\<open>reload\<close> as well; a call that
  raises leaves the list without duplicates too. Every prefix of a sequence is a
  sequence, so this holds at any time between two calls.
\<close>

theorem at_most_one_entry_per_path:
  "distinct (paths (call_all \<lparr> entries = [], old_filelist = known,
      observer_watches = ws, observer_started = st \<rparr> cs))"
  using list_inv_call_all[OF list_inv_empty] by (simp add: list_inv_def)

text \<open>The theorem at work: \<^verbatim>\<open>/b.png\<close> is added twice and appears once.\<close>

theorem at_most_one_entry_per_path_witness:
  "distinct (paths (call_all empty_list
      [AddFile demo_world (ascii ''/b.png''), AddFile demo_world (ascii ''/c.png''),
       AddFile demo_world (ascii ''/b.png''), RemoveFile (ascii ''/a.png'')])) \<and>
   paths (call_all empty_list
      [AddFile demo_world (ascii ''/b.png''), AddFile demo_world (ascii ''/c.png''),
       AddFile demo_world (ascii ''/b.png''), RemoveFile (ascii ''/a.png'')]) =
     [ascii ''/c.png'', ascii ''/b.png'']"
proof -
  have "distinct (paths (call_all empty_list
      [AddFile demo_world (ascii ''/b.png''), AddFile demo_world (ascii ''/c.png''),
       AddFile demo_world (ascii ''/b.png''), RemoveFile (ascii ''/a.png'')]))"
    unfolding empty_list_def by (rule at_most_one_entry_per_path)
  moreover have "paths (call_all empty_list
      [AddFile demo_world (ascii ''/b.png''), AddFile demo_world (ascii ''/c.png''),
       AddFile demo_world (ascii ''/b.png''), RemoveFile (ascii ''/a.png'')]) =
     [ascii ''/c.png'', ascii ''/b.png'']"
    by (simp add: list_defs)
  ultimately show ?thesis by (rule conjI)
qed

subsection \<open>A file that cannot be read or decoded (C7)\<close>

text \<open>
  Claim C7, as amended. When the modification time of the path cannot be read (the file
  is gone), or can be read and cannot be turned into a date, \<^verbatim>\<open>add_file\<close> removes the
  entry the list had for the path and then raises that error to its caller; the list,
  which had one entry per path, is left without an entry for the path. When the
  modification time can be read and turned into a date and only the image cannot be
  decoded, \<^verbatim>\<open>add_file\<close> returns and the list has an entry for the path, with the size
  0 x 0 of Qt's null image.
\<close>

theorem add_file_undecodable_or_missing:
  "(getmtime w p = Inl e \<longrightarrow>
      add_file w s p = Raised e (remove_file s p)) \<and>
   (getmtime w p = Inr t \<and> strftime w t = Inl e \<longrightarrow>
      add_file w s p = Raised e (remove_file s p)) \<and>
   (distinct (paths s) \<longrightarrow> p \<notin> set (paths (remove_file s p))) \<and>
   (getmtime w p = Inr t \<and> strftime w t = Inr date \<and> QImage_size w p = None \<longrightarrow>
      (\<exists>s'. add_file w s p = Returned s' \<and>
            \<lparr> file_path = p, timestamp = t, image_size = (0, 0) \<rparr> \<in> set (entries s')))"
  by (auto simp: add_file_def ScreenshotListItem_init_def Let_def set_sortItems
        set_paths_remove_file)

text \<open>
  The theorem at work: \<^verbatim>\<open>/gone.png\<close> has an entry and no file any more; \<^verbatim>\<open>/future.png\<close>
  has a modification time that is no date; \<^verbatim>\<open>/notes.txt\<close> is a file and no image.
\<close>

theorem add_file_undecodable_or_missing_witness:
  "getmtime demo_world (ascii ''/gone.png'') = Inl OSError \<and> distinct (paths one_entry) \<and>
   add_file demo_world one_entry (ascii ''/gone.png'') =
     Raised OSError (remove_file one_entry (ascii ''/gone.png'')) \<and>
   ascii ''/gone.png'' \<notin> set (paths (remove_file one_entry (ascii ''/gone.png''))) \<and>
   getmtime demo_world (ascii ''/future.png'') = Inr 300000000000 \<and>
   strftime demo_world 300000000000 = Inl ValueError \<and>
   add_file demo_world one_entry (ascii ''/future.png'') =
     Raised ValueError (remove_file one_entry (ascii ''/future.png'')) \<and>
   getmtime demo_world (ascii ''/notes.txt'') = Inr 5 \<and>
   strftime demo_world 5 = Inr (ascii ''date'') \<and>
   QImage_size demo_world (ascii ''/notes.txt'') = None \<and>
   (\<exists>s'. add_file demo_world one_entry (ascii ''/notes.txt'') = Returned s' \<and>
      \<lparr> file_path = ascii ''/notes.txt'', timestamp = 5, image_size = (0, 0) \<rparr>
        \<in> set (entries s'))"
proof -
  have g: "getmtime demo_world (ascii ''/gone.png'') = Inl OSError"
    and d: "distinct (paths one_entry)"
    and f: "getmtime demo_world (ascii ''/future.png'') = Inr 300000000000"
      "strftime demo_world 300000000000 = Inl ValueError"
    and n: "getmtime demo_world (ascii ''/notes.txt'') = Inr 5"
      "strftime demo_world 5 = Inr (ascii ''date'')"
      "QImage_size demo_world (ascii ''/notes.txt'') = None"
    by (simp_all add: demo_world_def one_entry_def paths_def ascii_def)
  from add_file_undecodable_or_missing
         [of demo_world "ascii ''/gone.png''" OSError one_entry 0 "[]"] g d
  have 1: "add_file demo_world one_entry (ascii ''/gone.png'') =
      Raised OSError (remove_file one_entry (ascii ''/gone.png''))"
    "ascii ''/gone.png'' \<notin> set (paths (remove_file one_entry (ascii ''/gone.png'')))"
    by blast+
  from add_file_undecodable_or_missing
         [of demo_world "ascii ''/future.png''" ValueError one_entry 300000000000 "[]"] f
  have 2: "add_file demo_world one_entry (ascii ''/future.png'') =
      Raised ValueError (remove_file one_entry (ascii ''/future.png''))"
    by blast
  from add_file_undecodable_or_missing
         [of demo_world "ascii ''/notes.txt''" OSError one_entry 5 "ascii ''date''"] n
  have 3: "\<exists>s'. add_file demo_world one_entry (ascii ''/notes.txt'') = Returned s' \<and>
      \<lparr> file_path = ascii ''/notes.txt'', timestamp = 5, image_size = (0, 0) \<rparr>
        \<in> set (entries s')"
    by blast
  from g d f n 1 2 3 show ?thesis by (intro conjI)
qed

text \<open>
  Claim C7 as it is written fails twice. \<^verbatim>\<open>/notes.txt\<close> cannot be decoded as an image,
  and \<^verbatim>\<open>add_file\<close> leaves an entry for it. \<^verbatim>\<open>/gone.png\<close> does not exist, and \<^verbatim>\<open>add_file\<close>
  raises.
\<close>

theorem add_file_undecodable_counterexample:
  "QImage_size demo_world (ascii ''/notes.txt'') = None \<and>
   add_file demo_world empty_list (ascii ''/notes.txt'') =
     Returned (empty_list\<lparr>entries :=
       [\<lparr> file_path = ascii ''/notes.txt'', timestamp = 5, image_size = (0, 0) \<rparr>]\<rparr>) \<and>
   add_file demo_world empty_list (ascii ''/gone.png'') = Raised OSError empty_list"
  by (simp add: list_defs)

subsection \<open>Reconciling with the list file (C6)\<close>

lemma add_files_total:
  assumes "\<forall>p\<in>set ps. loadable w p"
  shows "\<exists>s'. add_files w s ps = Returned s' \<and> set (paths s') = set (paths s) \<union> set ps \<and>
           old_filelist s' = old_filelist s \<and> (distinct (paths s) \<longrightarrow> distinct (paths s'))"
  using assms
proof (induction ps arbitrary: s)
  case Nil
  then show ?case by simp
next
  case (Cons p ps)
  from Cons.prems obtain s1 where s1: "add_file w s p = Returned s1"
    using add_file_total[of w p s] by auto
  have a: "set (paths s1) = insert p (set (paths s))"
    using s1 by (rule set_paths_add_file)
  have b: "old_filelist s1 = old_filelist s"
    using old_filelist_add_file[of w s p] s1 by simp
  have c: "distinct (paths s) \<longrightarrow> distinct (paths s1)"
    using distinct_paths_add_file[of s w p] s1 by simp
  from Cons.prems have "\<forall>p\<in>set ps. loadable w p" by simp
  from Cons.IH[OF this, of s1] obtain s' where
    "add_files w s1 ps = Returned s'" "set (paths s') = set (paths s1) \<union> set ps"
    "old_filelist s' = old_filelist s1" "distinct (paths s1) \<longrightarrow> distinct (paths s')"
    by blast
  with s1 a b c show ?case by auto
qed

lemma remove_files_paths:
  "distinct (paths s) \<Longrightarrow>
   set (paths (remove_files s ps)) = set (paths s) - set ps \<and>
   distinct (paths (remove_files s ps)) \<and>
   old_filelist (remove_files s ps) = old_filelist s"
proof (induction ps arbitrary: s)
  case Nil
  then show ?case by simp
next
  case (Cons p ps)
  from Cons.IH[OF distinct_paths_remove_file[OF Cons.prems, of p]]
  show ?case
    by (auto simp: set_paths_remove_file[OF Cons.prems] old_filelist_remove_file)
qed

lemma read_filelist_eq:
  assumes "isfile w (screenshot_source_filelist_path cfg) \<longrightarrow>
           readlines w (screenshot_source_filelist_path cfg) = Inr lines"
  shows "read_filelist cfg w =
         Inr (if isfile w (screenshot_source_filelist_path cfg)
              then (strip ` set lines - {[]}) \<inter> {p. isfile w p} else {})"
  using assms by (auto simp: read_filelist_def)

lemma update_from_filelist_paths:
  assumes "distinct (paths s)"
    and "old_filelist s \<subseteq> set (paths s)"
    and "isfile w (screenshot_source_filelist_path cfg) \<longrightarrow>
         readlines w (screenshot_source_filelist_path cfg) = Inr lines"
    and "\<forall>p. isfile w p \<longrightarrow> loadable w p"
    and "new = (if isfile w (screenshot_source_filelist_path cfg)
                then (strip ` set lines - {[]}) \<inter> {p. isfile w p} else {})"
    and "set (set_order w (new - old_filelist s)) = new - old_filelist s"
    and "set (set_order w (old_filelist s - new)) = old_filelist s - new"
  shows "\<exists>s'. update_from_filelist cfg w s = Returned s' \<and>
           old_filelist s' = new \<and>
           set (paths s') = (set (paths s) - old_filelist s) \<union> new \<and>
           distinct (paths s')"
proof -
  let ?s1 = "s\<lparr>old_filelist := new\<rparr>"
  have rd: "read_filelist cfg w = Inr new"
    using read_filelist_eq[OF assms(3)] assms(5) by simp
  have "\<forall>p\<in>new. isfile w p" using assms(5) by (auto split: if_splits)
  then have mt: "\<forall>p\<in>set (set_order w (new - old_filelist s)). loadable w p"
    using assms(4,6) by auto
  have d1: "distinct (paths ?s1)" and p1: "paths ?s1 = paths s"
    using assms(1) by (simp_all add: paths_def)
  from add_files_total[OF mt, of ?s1] obtain s2 where s2:
    "add_files w ?s1 (set_order w (new - old_filelist s)) = Returned s2"
    "set (paths s2) = set (paths ?s1) \<union> set (set_order w (new - old_filelist s))"
    "old_filelist s2 = old_filelist ?s1" "distinct (paths s2)"
    using d1 by blast
  let ?s3 = "remove_files s2 (set_order w (old_filelist s - new))"
  from remove_files_paths[OF s2(4), of "set_order w (old_filelist s - new)"]
  have s3: "set (paths ?s3) = set (paths s2) - set (set_order w (old_filelist s - new))"
    "distinct (paths ?s3)" "old_filelist ?s3 = old_filelist s2"
    by simp_all
  have res: "update_from_filelist cfg w s = Returned ?s3"
    using rd s2(1) by (simp add: update_from_filelist_def Let_def)
  have old: "old_filelist ?s3 = new" using s3(3) s2(3) by simp
  have mem: "set (paths ?s3) = (set (paths s) - old_filelist s) \<union> new"
    using s3(1) s2(2) p1 assms(2,6,7) by auto
  from res old mem s3(2) show ?thesis by auto
qed

text \<open>
  When the list holds every known path, and each path once, \<^verbatim>\<open>update_from_filelist\<close>
  does what claim C6 says (the lemma above): the known set becomes the set of listed
  files that exist, the list holds all of these and none of the paths that were known
  and are no longer listed.

  Claim C6, which speaks of any known set, fails on the program. The only call of
  \<^verbatim>\<open>update_from_filelist\<close> is the one in \<^verbatim>\<open>load_screenshots\<close>, right after
  \<^verbatim>\<open>self.clear()\<close>, and on every load but the first the known set is the one of the
  load before while the entries have just been emptied. Here the program was started
  with both sources off, the list source was switched on and the settings accepted, and
  the settings are accepted a second time. \<^verbatim>\<open>update_from_filelist\<close> then runs on the
  emptied list that still knows \<^verbatim>\<open>/b.png\<close> and \<^verbatim>\<open>/c.png\<close>. The list file names both and
  both exist, yet the run returns the list as it found it, with no entry: neither path
  is new, so neither is added.
\<close>

theorem stale_known_set_blocks_reconcile:
  "started = Returned (empty_list\<lparr>observer_started := True\<rparr>) \<and>
   paths (state_of accepted_once) = [ascii ''/c.png'', ascii ''/b.png''] \<and>
   old_filelist (state_of accepted_once) = {ascii ''/b.png'', ascii ''/c.png''} \<and>
   old_filelist cleared_bc = {ascii ''/b.png'', ascii ''/c.png''} \<and>
   paths cleared_bc = [] \<and>
   read_filelist demo_config demo_world = Inr {ascii ''/b.png'', ascii ''/c.png''} \<and>
   isfile demo_world (ascii ''/b.png'') \<and> isfile demo_world (ascii ''/c.png'') \<and>
   update_from_filelist demo_config demo_world cleared_bc = Returned cleared_bc"
  by (simp add: list_defs started_def accepted_once_def cleared_bc_def)

subsection \<open>Loading all screenshots (C8)\<close>

lemma scan_files_total:
  assumes "\<forall>p\<in>set ps. loadable w p"
  shows "\<exists>s'. scan_files w now s ps = Returned s' \<and>
           set (paths s') =
             set (paths s) \<union> {p \<in> set ps. \<exists>m. getmtime w p = Inr m \<and> now - 86400 \<le> m} \<and>
           old_filelist s' = old_filelist s \<and> (distinct (paths s) \<longrightarrow> distinct (paths s'))"
  using assms
proof (induction ps arbitrary: s)
  case Nil
  then show ?case by simp
next
  case (Cons p ps)
  from Cons.prems have lp: "loadable w p" by simp
  then obtain m where m: "getmtime w p = Inr m"
    by (auto simp: loadable_def split: sum.splits)
  from Cons.prems have rest: "\<forall>p\<in>set ps. loadable w p" by simp
  show ?case
  proof (cases "m < now - 86400")
    case True
    from Cons.IH[OF rest, of s] obtain s' where
      "scan_files w now s ps = Returned s'"
      "set (paths s') =
         set (paths s) \<union> {p \<in> set ps. \<exists>m. getmtime w p = Inr m \<and> now - 86400 \<le> m}"
      "old_filelist s' = old_filelist s" "distinct (paths s) \<longrightarrow> distinct (paths s')"
      by blast
    with True m show ?thesis by auto
  next
    case False
    from lp obtain s1 where s1: "add_file w s p = Returned s1"
      using add_file_total[of w p s] by auto
    have a: "set (paths s1) = insert p (set (paths s))"
      using s1 by (rule set_paths_add_file)
    have b: "old_filelist s1 = old_filelist s"
      using old_filelist_add_file[of w s p] s1 by simp
    have c: "distinct (paths s) \<longrightarrow> distinct (paths s1)"
      using distinct_paths_add_file[of s w p] s1 by simp
    from Cons.IH[OF rest, of s1] obtain s' where
      "scan_files w now s1 ps = Returned s'"
      "set (paths s') =
         set (paths s1) \<union> {p \<in> set ps. \<exists>m. getmtime w p = Inr m \<and> now - 86400 \<le> m}"
      "old_filelist s' = old_filelist s1" "distinct (paths s1) \<longrightarrow> distinct (paths s')"
      by blast
    with False m s1 a b c show ?thesis by auto
  qed
qed

text \<open>
  The first load, when no path is known yet, does what claim C8 says: the list holds
  the fresh files of the folder (if the folder source is on and the folder exists)
  together with the listed files that exist (if the list source is on and the list file
  exists), provided every modification time and the list file can be read.
\<close>

lemma first_load_exact:
  assumes "old_filelist s = {}"
    and "\<forall>p\<in>set (walk w (screenshot_source_folder_path cfg)). loadable w p"
    and "isfile w (screenshot_source_filelist_path cfg) \<longrightarrow>
         readlines w (screenshot_source_filelist_path cfg) = Inr lines"
    and "\<forall>p. isfile w p \<longrightarrow> loadable w p"
    and "new = (strip ` set lines - {[]}) \<inter> {p. isfile w p}"
    and "set (set_order w new) = new" and "set_order w {} = []"
  shows "\<exists>s'. load_screenshots cfg w s = Returned s' \<and>
           set (paths s') =
             (if screenshot_source_folder_use cfg \<and> isdir w (screenshot_source_folder_path cfg)
              then fresh_files w (screenshot_source_folder_path cfg) else {}) \<union>
             (if screenshot_source_filelist_use cfg \<and> isfile w (screenshot_source_filelist_path cfg)
              then new else {})"
proof -
  let ?s0 = "s\<lparr>entries := []\<rparr>"
  let ?folder = "screenshot_source_folder_use cfg \<and> isdir w (screenshot_source_folder_path cfg)"
  let ?scan = "if ?folder
            then scan_files w (time_now w) ?s0 (walk w (screenshot_source_folder_path cfg))
            else Returned ?s0"
  have s0: "paths ?s0 = []" "old_filelist ?s0 = {}"
    using assms(1) by (simp_all add: paths_def)
  obtain s1 where s1: "?scan = Returned s1"
    "set (paths s1) = (if ?folder then fresh_files w (screenshot_source_folder_path cfg) else {})"
    "old_filelist s1 = {}" "distinct (paths s1)"
  proof (cases ?folder)
    case True
    from scan_files_total[OF assms(2), of "time_now w" ?s0] s0 True that show ?thesis
      by (auto simp: fresh_files_def)
  next
    case False
    with s0 that[of ?s0] show ?thesis by auto
  qed
  show ?thesis
  proof (cases "screenshot_source_filelist_use cfg \<and> isfile w (screenshot_source_filelist_path cfg)")
    case False
    with s1 show ?thesis by (auto simp: load_screenshots_def Let_def)
  next
    case True
    then have n: "new = (if isfile w (screenshot_source_filelist_path cfg)
                then (strip ` set lines - {[]}) \<inter> {p. isfile w p} else {})"
      using assms(5) by simp
    have o1: "set (set_order w (new - old_filelist s1)) = new - old_filelist s1"
      and o2: "set (set_order w (old_filelist s1 - new)) = old_filelist s1 - new"
      using s1(3) assms(6,7) by simp_all
    have sub: "old_filelist s1 \<subseteq> set (paths s1)" using s1(3) by simp
    from update_from_filelist_paths[OF s1(4) sub assms(3,4) n o1 o2] obtain s' where
      "update_from_filelist cfg w s1 = Returned s'"
      "set (paths s') = (set (paths s1) - old_filelist s1) \<union> new" by blast
    with True s1 show ?thesis by (auto simp: load_screenshots_def Let_def)
  qed
qed

text \<open>
  Claim C8 fails on a second load. The program is started with both sources off, so
  \<^verbatim>\<open>__init__\<close> returns with an empty list and a running observer. (Started with the
  list source on, \<^verbatim>\<open>__init__\<close> raises in \<^verbatim>\<open>reload_file_watcher\<close> and the program ends
  there.) The user switches the list source on and accepts the settings; the list file
  names \<^verbatim>\<open>/b.png\<close> and \<^verbatim>\<open>/c.png\<close>, and both exist. This first load with the list
  source shows both, and then \<^verbatim>\<open>reload_file_watcher\<close> raises in the slot. The user
  accepts the settings again with nothing changed: the second load clears the list and
  returns it empty, because \<open>old_filelist\<close> still holds the two paths and
  \<^verbatim>\<open>update_from_filelist\<close> finds nothing to add. The claim says the list holds both.
\<close>

theorem reload_loses_listed_files:
  "ScreenshotList_init demo_config demo_world =
     Raised AttributeError
       (empty_list\<lparr>entries :=
          [\<lparr> file_path = ascii ''/c.png'', timestamp = 300, image_size = (640, 480) \<rparr>,
           \<lparr> file_path = ascii ''/b.png'', timestamp = 100, image_size = (640, 480) \<rparr>],
          old_filelist := {ascii ''/b.png'', ascii ''/c.png''}\<rparr>) \<and>
   started = Returned (empty_list\<lparr>observer_started := True\<rparr>) \<and>
   isfile demo_world (ascii ''/b.png'') \<and> isfile demo_world (ascii ''/c.png'') \<and>
   read_filelist demo_config demo_world = Inr {ascii ''/b.png'', ascii ''/c.png''} \<and>
   load_screenshots demo_config demo_world (state_of started) =
     Returned (state_of accepted_once) \<and>
   accepted_once = Raised AttributeError (state_of accepted_once) \<and>
   paths (state_of accepted_once) = [ascii ''/c.png'', ascii ''/b.png''] \<and>
   load_screenshots demo_config demo_world (state_of accepted_once) =
     Returned ((state_of accepted_once)\<lparr>entries := []\<rparr>) \<and>
   accepted_twice = Raised AttributeError ((state_of accepted_once)\<lparr>entries := []\<rparr>) \<and>
   paths (state_of accepted_twice) = []"
  by (simp add: list_defs started_def accepted_once_def accepted_twice_def)

end
